theory Spec2Isabelle
  imports Complex_Main
begin

section \<open>JavaScript values used by the Rntrc class\<close>

text \<open>
  A JavaScript number is modelled as \<open>int option\<close>: \<open>None\<close> is NaN, \<open>Some k\<close> the
  integer \<open>k\<close>. Every number the class computes from integer arguments is an integer far
  below $2^{53}$ in magnitude, so double arithmetic is exact on it; non-integer arguments
  are outside the model. A string is a list of characters, one per code unit.
\<close>

type_synonym number = "int option"

definition num_add :: "number \<Rightarrow> number \<Rightarrow> number" where
  "num_add a b = (case a of None \<Rightarrow> None | Some x \<Rightarrow> (case b of None \<Rightarrow> None | Some y \<Rightarrow> Some (x + y)))"

definition num_sub :: "number \<Rightarrow> number \<Rightarrow> number" where
  "num_sub a b = (case a of None \<Rightarrow> None | Some x \<Rightarrow> (case b of None \<Rightarrow> None | Some y \<Rightarrow> Some (x - y)))"

definition num_mul :: "number \<Rightarrow> number \<Rightarrow> number" where
  "num_mul a b = (case a of None \<Rightarrow> None | Some x \<Rightarrow> (case b of None \<Rightarrow> None | Some y \<Rightarrow> Some (x * y)))"

text \<open>The remainder operator \<open>%\<close>: the result has the sign of the dividend.\<close>

definition js_rem :: "int \<Rightarrow> int \<Rightarrow> int" where
  "js_rem a b = sgn a * (\<bar>a\<bar> mod \<bar>b\<bar>)"

definition num_rem :: "number \<Rightarrow> number \<Rightarrow> number" where
  "num_rem a b =
     (case a of None \<Rightarrow> None
      | Some x \<Rightarrow> (case b of None \<Rightarrow> None
                  | Some y \<Rightarrow> if y = 0 then None else Some (js_rem x y)))"

text \<open>Strict equality \<open>===\<close> and inequality \<open>!==\<close> of two numbers: NaN equals nothing.\<close>

definition num_eq :: "number \<Rightarrow> number \<Rightarrow> bool" where
  "num_eq a b = (case a of None \<Rightarrow> False | Some x \<Rightarrow> (case b of None \<Rightarrow> False | Some y \<Rightarrow> x = y))"

definition num_neq :: "number \<Rightarrow> number \<Rightarrow> bool" where
  "num_neq a b = (if num_eq a b then False else True)"

definition is_digit :: "char \<Rightarrow> bool" where
  "is_digit c = (48 \<le> (of_char c :: nat) \<and> (of_char c :: nat) \<le> 57)"

definition digit_val :: "char \<Rightarrow> int" where
  "digit_val c = int (of_char c) - 48"

definition digit_char :: "nat \<Rightarrow> char" where
  "digit_char n = ''0123456789'' ! n"

text \<open>White space that \<open>parseInt\<close> and \<open>Number\<close> strip, among the one-byte characters.\<close>

definition is_space :: "char \<Rightarrow> bool" where
  "is_space c = ((of_char c :: nat) \<in> {9, 10, 11, 12, 13, 32, 160})"

fun digits_value :: "int \<Rightarrow> string \<Rightarrow> int" where
  "digits_value acc [] = acc"
| "digits_value acc (c # cs) = digits_value (acc * 10 + digit_val c) cs"

text \<open>
  \<open>parseInt(s, 10)\<close>: skip leading white space, read an optional sign, then the longest
  run of decimal digits; NaN when that run is empty.
\<close>

definition parseInt :: "string \<Rightarrow> number" where
  "parseInt s =
     (let s1 = dropWhile is_space s;
          neg = (case s1 of [] \<Rightarrow> False | c # _ \<Rightarrow> c = CHR ''-'');
          s2 = (case s1 of [] \<Rightarrow> [] | c # r \<Rightarrow> if c = CHR ''-'' \<or> c = CHR ''+'' then r else s1);
          ds = takeWhile is_digit s2
      in if ds = [] then None
         else Some ((if neg then - 1 else 1) * digits_value 0 ds))"

text \<open>
  \<open>Number(c)\<close> for \<open>c\<close> one character of a string, or \<open>undefined\<close> past its end: a
  digit is its value, white space is 0, anything else (and \<open>undefined\<close>) is NaN.
\<close>

definition Number_of_char :: "char option \<Rightarrow> number" where
  "Number_of_char c =
     (case c of None \<Rightarrow> None
      | Some d \<Rightarrow> if is_digit d then Some (digit_val d)
                  else if is_space d then Some 0 else None)"

function show_nat :: "nat \<Rightarrow> string" where
  "show_nat n = (if n < 10 then [digit_char n] else show_nat (n div 10) @ [digit_char (n mod 10)])"
  by pat_completeness auto
termination
  by (relation "measure id") auto

declare show_nat.simps [simp del]

text \<open>
  \<open>String(n)\<close> and \<open>n.toString()\<close> of a number: plain decimal digits, as JavaScript
  prints every integer below $10^{21}$ in magnitude.
\<close>

definition Number_toString :: "number \<Rightarrow> string" where
  "Number_toString a =
     (case a of None \<Rightarrow> ''NaN''
      | Some k \<Rightarrow> if k < 0 then CHR ''-'' # show_nat (nat (- k)) else show_nat (nat k))"

definition padStart :: "nat \<Rightarrow> char \<Rightarrow> string \<Rightarrow> string" where
  "padStart n c s = replicate (n - length s) c @ s"

text \<open>\<open>s[i]\<close>: the character at index \<open>i\<close>, \<open>undefined\<close> (\<open>None\<close>) past the end.\<close>

definition char_at :: "string \<Rightarrow> nat \<Rightarrow> char option" where
  "char_at s i = (if i < length s then Some (s ! i) else None)"

text \<open>\<open>s.slice(a, b)\<close> for \<open>0 \<le> a \<le> b\<close>.\<close>

definition slice :: "string \<Rightarrow> nat \<Rightarrow> nat \<Rightarrow> string" where
  "slice s a b = take (b - a) (drop a s)"

section \<open>The Rntrc class: checksum, validity, construction, accessors\<close>

text \<open>
  The errors the class throws, told apart by their messages: \<open>Invalid RNTRC\<close>;
  \<open>Invalid date: year-month-day\<close> with the three numbers; \<open>Birthdate must be between
  MIN_DATE and MAX_DATE\<close>, which names the two bounds (the model keeps their time values
  and leaves out how \<open>toLocaleDateString\<close> prints them); and \<open>Gender must be either
  "male" or "female"\<close>.
\<close>

datatype error =
    Invalid_RNTRC
  | Invalid_date number number number
  | Birthdate_out_of_range number number
  | Gender_must_be_male_or_female

record rntrc =
  "value" :: string
  ignoreInvalid :: bool

text \<open>The constructor's argument: a string or a number (an integer here).\<close>

datatype rntrc_arg = Str string | Num int

definition String_of :: "rntrc_arg \<Rightarrow> string" where
  "String_of a = (case a of Str s \<Rightarrow> s | Num k \<Rightarrow> Number_toString (Some k))"

definition WEIGHTS :: "int list" where
  "WEIGHTS = [- 1, 5, 7, 9, 4, 6, 10, 5, 7]"

definition MILLIS_PER_DAY :: int where
  "MILLIS_PER_DAY = 86400000"

definition checksum :: "string \<Rightarrow> string" where
  "checksum rntrc =
     (let digits = map (\<lambda>d. parseInt [d]) rntrc;
          len = min (length digits) (length WEIGHTS);
          sum = fold (\<lambda>i sum. num_add sum (num_mul (digits ! i) (Some (WEIGHTS ! i))))
                  [0..<len] (Some 0);
          checksum0 = num_rem (num_rem sum (Some 11)) (Some 10);
          checksum1 = (if num_eq checksum0 (Some 10) then Some 0 else checksum0)
      in Number_toString checksum1)"

definition valid :: "rntrc \<Rightarrow> bool" where
  "valid this =
     (if char_at (value this) 8 = Some CHR ''0'' then False
      else (case char_at (value this) 9 of
              None \<Rightarrow> False
            | Some c \<Rightarrow> [c] = checksum (value this)))"

text \<open>The test of \<open>/^\d{10}$/\<close>.\<close>

definition matches_10_digits :: "string \<Rightarrow> bool" where
  "matches_10_digits s = (length s = 10 \<and> list_all is_digit s)"

definition new_Rntrc :: "rntrc_arg \<Rightarrow> bool option \<Rightarrow> error + rntrc" where
  "new_Rntrc a ig =
     (let this = \<lparr>value = String_of a,
                  ignoreInvalid = (case ig of None \<Rightarrow> False | Some b \<Rightarrow> b)\<rparr>
      in if (if ignoreInvalid this then False else if valid this then False else True) then Inl Invalid_RNTRC
         else if length (value this) = 10 then
           (if matches_10_digits (value this) then Inr this else Inl Invalid_RNTRC)
         else Inl Invalid_RNTRC)"

definition toString :: "rntrc \<Rightarrow> string" where
  "toString this = value this"

definition gender :: "rntrc \<Rightarrow> string" where
  "gender this =
     (if num_neq (num_rem (Number_of_char (char_at (value this) 8)) (Some 2)) (Some 0)
      then ''male'' else ''female'')"

definition male :: "rntrc \<Rightarrow> bool" where
  "male this = (gender this = ''male'')"

definition female :: "rntrc \<Rightarrow> bool" where
  "female this = (gender this = ''female'')"

definition accountingCardNumber :: "rntrc \<Rightarrow> string" where
  "accountingCardNumber this = slice (value this) 5 9"

section \<open>Time values and calendar fields of the built-in Date\<close>

text \<open>
  The built-in \<open>Date\<close> follows the ECMAScript definitions: a time value is a number of
  milliseconds since 1970-01-01 UTC (NaN for an invalid date), days are numbered from that
  day, and the calendar is the proleptic Gregorian one. \<open>div\<close> and \<open>mod\<close> on \<open>int\<close> round
  towards minus infinity, as the definitions require.
\<close>

definition msPerDay :: int where
  "msPerDay = 86400000"

definition DaysInYear :: "int \<Rightarrow> int" where
  "DaysInYear y =
     (if y mod 4 \<noteq> 0 then 365 else if y mod 100 \<noteq> 0 then 366
      else if y mod 400 \<noteq> 0 then 365 else 366)"

definition InLeapYear :: "int \<Rightarrow> int" where
  "InLeapYear y = (if DaysInYear y = 366 then 1 else 0)"

definition DayFromYear :: "int \<Rightarrow> int" where
  "DayFromYear y =
     365 * (y - 1970) + (y - 1969) div 4 - (y - 1901) div 100 + (y - 1601) div 400"

text \<open>
  The year of a day number is the largest \<open>y\<close> with \<open>DayFromYear y \<le> d\<close>. It is computed
  from the mean year length (146097 days in 400 years), corrected by at most one year;
  lemma \<open>YearFromDay_bounds\<close> below shows that this is that year.
\<close>

definition YearFromDay :: "int \<Rightarrow> int" where
  "YearFromDay d =
     (let y = 1970 + (400 * d) div 146097
      in if d < DayFromYear y then y - 1
         else if DayFromYear (y + 1) \<le> d then y + 1 else y)"

definition DayWithinYear :: "int \<Rightarrow> int" where
  "DayWithinYear d = d - DayFromYear (YearFromDay d)"

text \<open>Months are numbered from 0 (January) to 11, as \<open>getMonth\<close> and \<open>Date.UTC\<close> do.\<close>

definition MonthFromDay :: "int \<Rightarrow> int" where
  "MonthFromDay d =
     (let w = DayWithinYear d; l = InLeapYear (YearFromDay d)
      in if w < 31 then 0 else if w < 59 + l then 1 else if w < 90 + l then 2
         else if w < 120 + l then 3 else if w < 151 + l then 4 else if w < 181 + l then 5
         else if w < 212 + l then 6 else if w < 243 + l then 7 else if w < 273 + l then 8
         else if w < 304 + l then 9 else if w < 334 + l then 10 else 11)"

text \<open>The day within the year on which month \<open>m\<close> (0 to 11) starts.\<close>

definition month_start :: "int \<Rightarrow> int \<Rightarrow> int" where
  "month_start l m =
     (if m = 0 then 0 else if m = 1 then 31 else if m = 2 then 59 + l
      else if m = 3 then 90 + l else if m = 4 then 120 + l else if m = 5 then 151 + l
      else if m = 6 then 181 + l else if m = 7 then 212 + l else if m = 8 then 243 + l
      else if m = 9 then 273 + l else if m = 10 then 304 + l else 334 + l)"

definition DateFromDay :: "int \<Rightarrow> int" where
  "DateFromDay d =
     DayWithinYear d + 1 - month_start (InLeapYear (YearFromDay d)) (MonthFromDay d)"

text \<open>
  \<open>MakeDay\<close>: a month outside 0..11 carries into the year, and the day of the month is
  added as a plain offset, so that day 0 is the last day of the month before and day 31
  of a 30-day month is the first of the next.
\<close>

definition MakeDay :: "int \<Rightarrow> int \<Rightarrow> int \<Rightarrow> int" where
  "MakeDay y m dt =
     (let ym = y + m div 12; mn = m mod 12
      in DayFromYear ym + month_start (InLeapYear ym) mn + dt - 1)"

definition TimeClip :: "int \<Rightarrow> number" where
  "TimeClip t = (if \<bar>t\<bar> > 8640000000000000 then None else Some t)"

text \<open>A year from 0 to 99 given to \<open>Date.UTC\<close> or to the constructor means 1900 + year.\<close>

definition full_year :: "int \<Rightarrow> int" where
  "full_year y = (if 0 \<le> y \<and> y \<le> 99 then 1900 + y else y)"

text \<open>The time value of midnight UTC, before clipping.\<close>

definition utc_ms :: "int \<Rightarrow> int \<Rightarrow> int \<Rightarrow> int" where
  "utc_ms y m dt = MakeDay (full_year y) m dt * msPerDay"

definition Date_UTC :: "number \<Rightarrow> number \<Rightarrow> number \<Rightarrow> number" where
  "Date_UTC y m dt =
     (case y of None \<Rightarrow> None
      | Some y' \<Rightarrow> (case m of None \<Rightarrow> None
         | Some m' \<Rightarrow> (case dt of None \<Rightarrow> None
            | Some dt' \<Rightarrow> TimeClip (utc_ms y' m' dt'))))"

text \<open>
  What the class reads from its surroundings: the local calendar date of the call
  (\<open>new Date()\<close>) and the offset of local time from UTC in milliseconds, at a UTC time
  value (\<open>LocalTZA\<close>) and at a local one (\<open>LocalTZA_local\<close>).
\<close>

record env =
  today_FullYear :: int
  today_Month :: int
  today_Date :: int
  LocalTZA :: "int \<Rightarrow> int"
  LocalTZA_local :: "int \<Rightarrow> int"

text \<open>\<open>new Date(year, month, day)\<close>: the fields are read in local time.\<close>

definition new_Date :: "env \<Rightarrow> number \<Rightarrow> number \<Rightarrow> number \<Rightarrow> number" where
  "new_Date e y m dt =
     (case y of None \<Rightarrow> None
      | Some y' \<Rightarrow> (case m of None \<Rightarrow> None
         | Some m' \<Rightarrow> (case dt of None \<Rightarrow> None
            | Some dt' \<Rightarrow>
                (let lt = utc_ms y' m' dt' in TimeClip (lt - LocalTZA_local e lt)))))"

definition LocalDay :: "env \<Rightarrow> int \<Rightarrow> int" where
  "LocalDay e t = (t + LocalTZA e t) div msPerDay"

definition getFullYear :: "env \<Rightarrow> number \<Rightarrow> number" where
  "getFullYear e t = (case t of None \<Rightarrow> None | Some t' \<Rightarrow> Some (YearFromDay (LocalDay e t')))"

definition getMonth :: "env \<Rightarrow> number \<Rightarrow> number" where
  "getMonth e t = (case t of None \<Rightarrow> None | Some t' \<Rightarrow> Some (MonthFromDay (LocalDay e t')))"

definition getDate :: "env \<Rightarrow> number \<Rightarrow> number" where
  "getDate e t = (case t of None \<Rightarrow> None | Some t' \<Rightarrow> Some (DateFromDay (LocalDay e t')))"

text \<open>The UTC calendar fields of a time value: year, month (0 to 11), day of the month.\<close>

definition utc_fields :: "int \<Rightarrow> int \<times> int \<times> int" where
  "utc_fields t =
     (let d = t div msPerDay in (YearFromDay d, MonthFromDay d, DateFromDay d))"

section \<open>Birthdate and generation\<close>

definition BASE_DATE_MS :: int where
  "BASE_DATE_MS = utc_ms 1899 11 31"

definition MIN_DATE :: number where
  "MIN_DATE = Date_UTC (Some 1900) (Some 0) (Some 1)"

definition MAX_DATE :: number where
  "MAX_DATE = Date_UTC (Some 2173) (Some 9) (Some 14)"

definition birthdate :: "rntrc \<Rightarrow> number" where
  "birthdate this =
     (let days = parseInt (slice (value this) 0 5)
      in case num_add (Some BASE_DATE_MS) (num_mul days (Some MILLIS_PER_DAY)) of
           None \<Rightarrow> None | Some t \<Rightarrow> TimeClip t)"

text \<open>
  The options of \<open>generate\<close>. For \<open>day\<close>, \<open>month\<close> and \<open>year\<close>, \<open>None\<close> is an option that
  is absent or whose \<open>Number(...)\<close> is NaN, and \<open>Some k\<close> one whose \<open>Number(...)\<close> is the
  integer \<open>k\<close>. The fields carry the prefix \<open>param_\<close> to keep them apart from the
  method \<open>gender\<close>.
\<close>

record GenerateParams =
  param_day :: "int option"
  param_month :: "int option"
  param_year :: "int option"
  param_gender :: "string option"

text \<open>
  The values of \<open>Math.random()\<close>, one for each place where \<open>generate\<close> calls \<open>random\<close>
  (each place runs at most once in a call): reals in the interval from 0 to 1, 1 excluded.
  In \<open>random\<close> the product with \<open>max - min + 1\<close> is taken exactly, where the code rounds
  it to a double before \<open>Math.floor\<close>; for a few draws next to a boundary the two differ by
  one, and in both the result is an integer from \<open>min\<close> to \<open>max\<close>, each of them reached
  by some draw.
\<close>

record draws =
  u_year :: real
  u_month :: real
  u_day :: real
  u_record :: real
  u_gender :: real

definition draws_ok :: "draws \<Rightarrow> bool" where
  "draws_ok r =
     (0 \<le> u_year r \<and> u_year r < 1 \<and> 0 \<le> u_month r \<and> u_month r < 1 \<and>
      0 \<le> u_day r \<and> u_day r < 1 \<and> 0 \<le> u_record r \<and> u_record r < 1 \<and>
      0 \<le> u_gender r \<and> u_gender r < 1)"

definition random :: "real \<Rightarrow> number \<Rightarrow> number \<Rightarrow> number" where
  "random u mn mx =
     (case mn of None \<Rightarrow> None
      | Some a \<Rightarrow> (case mx of None \<Rightarrow> None
         | Some b \<Rightarrow> Some (\<lfloor>u * real_of_int (b - a + 1)\<rfloor> + a)))"

definition num_lt :: "number \<Rightarrow> number \<Rightarrow> bool" where
  "num_lt a b = (case a of None \<Rightarrow> False | Some x \<Rightarrow> (case b of None \<Rightarrow> False | Some y \<Rightarrow> x < y))"

text \<open>\<open>Math.floor(a / b)\<close> for a divisor that is not 0.\<close>

definition num_floor_div :: "number \<Rightarrow> int \<Rightarrow> number" where
  "num_floor_div a b = (case a of None \<Rightarrow> None | Some x \<Rightarrow> Some (x div b))"

definition resolve_year :: "env \<Rightarrow> draws \<Rightarrow> GenerateParams \<Rightarrow> number" where
  "resolve_year e r p =
     (case param_year p of
        None \<Rightarrow> random (u_year r) (Some 1900) (Some (today_FullYear e))
      | Some y \<Rightarrow> Some y)"

definition resolve_month :: "env \<Rightarrow> draws \<Rightarrow> GenerateParams \<Rightarrow> number" where
  "resolve_month e r p =
     (let year = resolve_year e r p;
          maxMonth =
            (if num_eq year (Some (today_FullYear e)) then Some (today_Month e + 1)
             else num_add (getMonth e (new_Date e year (Some 11) (Some 31))) (Some 1))
      in case param_month p of
           None \<Rightarrow> random (u_month r) (Some 1) maxMonth
         | Some m \<Rightarrow> Some m)"

definition resolve_day :: "env \<Rightarrow> draws \<Rightarrow> GenerateParams \<Rightarrow> number" where
  "resolve_day e r p =
     (let year = resolve_year e r p;
          month = resolve_month e r p;
          maxDay =
            (if num_eq year (Some (today_FullYear e)) \<and> num_eq month (Some (today_Month e + 1))
             then Some (today_Date e)
             else getDate e (new_Date e year month (Some 0)))
      in case param_day p of
           None \<Rightarrow> random (u_day r) (Some 1) maxDay
         | Some d \<Rightarrow> Some d)"

text \<open>
  The gender digit (lines 228 to 238 of the source): \<open>!gender\<close> holds for an absent
  option and for the empty string.
\<close>

definition genderNumeric :: "draws \<Rightarrow> string option \<Rightarrow> error + number" where
  "genderNumeric r gnd =
     (if (case gnd of None \<Rightarrow> True | Some g \<Rightarrow> g = [])
      then Inr (random (u_gender r) (Some 1) (Some 8))
      else if gnd = Some ''female''
      then Inr (num_add (num_mul (random (u_gender r) (Some 0) (Some 3)) (Some 2)) (Some 2))
      else if gnd = Some ''male''
      then Inr (num_add (num_mul (random (u_gender r) (Some 0) (Some 4)) (Some 2)) (Some 1))
      else Inl Gender_must_be_male_or_female)"

definition generate :: "env \<Rightarrow> draws \<Rightarrow> GenerateParams \<Rightarrow> error + rntrc" where
  "generate e r p =
     (let year = resolve_year e r p;
          month = resolve_month e r p;
          day = resolve_day e r p;
          testDate = Date_UTC year (num_sub month (Some 1)) day
      in if num_neq (getDate e testDate) day \<or>
            num_neq (getMonth e testDate) (num_sub month (Some 1)) \<or>
            num_neq (getFullYear e testDate) year
         then Inl (Invalid_date year month day)
         else
           (let birthdate = Date_UTC year (num_sub month (Some 1)) day
            in if num_lt birthdate MIN_DATE \<or> num_lt MAX_DATE birthdate
               then Inl (Birthdate_out_of_range MIN_DATE MAX_DATE)
               else
                 (let days = padStart 5 CHR ''0''
                       (Number_toString
                          (num_floor_div (num_sub birthdate (Some BASE_DATE_MS)) MILLIS_PER_DAY));
                      recordNumeric = padStart 3 CHR ''0''
                        (Number_toString (random (u_record r) (Some 0) (Some 999)))
                  in case genderNumeric r (param_gender p) of
                       Inl err \<Rightarrow> Inl err
                     | Inr gn \<Rightarrow>
                         (let rntrc = days @ recordNumeric @ Number_toString gn
                          in new_Rntrc (Str (rntrc @ checksum rntrc)) None))))"

section \<open>Notions used to state the properties\<close>

text \<open>Calendar validity of a year, a month (1 to 12) and a day of the month.\<close>

definition days_in_month :: "int \<Rightarrow> int \<Rightarrow> int" where
  "days_in_month y m =
     (if m = 2 then 28 + InLeapYear y
      else if m = 4 \<or> m = 6 \<or> m = 9 \<or> m = 11 then 30 else 31)"

definition calendar_valid :: "int \<Rightarrow> int \<Rightarrow> int \<Rightarrow> bool" where
  "calendar_valid y m d = (1 \<le> m \<and> m \<le> 12 \<and> 1 \<le> d \<and> d \<le> days_in_month y m)"

text \<open>The order of calendar dates, and the range from 1900-01-01 to 2173-10-14.\<close>

definition date_less :: "int \<times> int \<times> int \<Rightarrow> int \<times> int \<times> int \<Rightarrow> bool" where
  "date_less a b =
     (case a of (y, m, d) \<Rightarrow> case b of (y', m', d') \<Rightarrow>
        y < y' \<or> (y = y' \<and> (m < m' \<or> (m = m' \<and> d < d'))))"

definition in_range :: "int \<Rightarrow> int \<Rightarrow> int \<Rightarrow> bool" where
  "in_range y m d =
     (if date_less (y, m, d) (1900, 1, 1) then False
      else if date_less (2173, 10, 14) (y, m, d) then False else True)"

text \<open>
  The local calendar day of a UTC midnight is that same day: the offset of local time
  from UTC at \<open>t\<close> is at least 0 and less than a day.
\<close>

definition same_local_day :: "env \<Rightarrow> int \<Rightarrow> bool" where
  "same_local_day e t = (0 \<le> LocalTZA e t \<and> LocalTZA e t < msPerDay)"

text \<open>
  The reference checksum, as the specification words it: the weighted sum of the first
  nine digits, reduced modulo 11 and then modulo 10 with the mathematical (non-negative)
  modulus, a raw value of 10 becoming 0.
\<close>

definition checksum_reference :: "string \<Rightarrow> string" where
  "checksum_reference s =
     (let sum = sum_list (map2 (\<lambda>w d. w * d) WEIGHTS (map digit_val (take 9 s)));
          raw = (sum mod 11) mod 10
      in show_nat (nat (if raw = 10 then 0 else raw)))"

text \<open>The weighted sum of a list of digit values, paired with the weights in order.\<close>

fun wsum :: "int list \<Rightarrow> int list \<Rightarrow> int" where
  "wsum (d # ds) (w # ws) = d * w + wsum ds ws"
| "wsum _ _ = 0"

text \<open>
  The nine characters that \<open>generate\<close> assembles from the time value \<open>t\<close> of the
  birthdate, the draw for the record number and the gender digit \<open>gn\<close>.
\<close>

definition rntrc9 :: "int \<Rightarrow> draws \<Rightarrow> number \<Rightarrow> string" where
  "rntrc9 t r gn =
     padStart 5 CHR ''0'' (Number_toString (Some ((t - BASE_DATE_MS) div MILLIS_PER_DAY))) @
     padStart 3 CHR ''0'' (Number_toString (random (u_record r) (Some 0) (Some 999))) @
     Number_toString gn"

text \<open>A time value that \<open>TimeClip\<close> keeps.\<close>

definition representable :: "int \<Rightarrow> bool" where
  "representable t = (\<bar>t\<bar> \<le> 8640000000000000)"



text \<open>A fixed surrounding for concrete runs: 3 November 2026, local time equal to UTC.\<close>

definition utc_env :: env where
  "utc_env = \<lparr>today_FullYear = 2026, today_Month = 10, today_Date = 3,
               LocalTZA = (\<lambda>t. 0), LocalTZA_local = (\<lambda>t. 0)\<rparr>"

text \<open>The same day and place five hours west of UTC.\<close>

definition west_env :: env where
  "west_env = \<lparr>today_FullYear = 2026, today_Month = 10, today_Date = 3,
                LocalTZA = (\<lambda>t. - 18000000), LocalTZA_local = (\<lambda>t. - 18000000)\<rparr>"

text \<open>Every draw of \<open>Math.random()\<close> equal to 0.\<close>

definition zero_draws :: draws where
  "zero_draws = \<lparr>u_year = 0, u_month = 0, u_day = 0, u_record = 0, u_gender = 0\<rparr>"

section \<open>The calendar functions are mutually inverse\<close>

lemma div_succ:
  fixes a n :: int
  assumes "0 < n"
  shows "(a + 1) div n = a div n + (if (a + 1) mod n = 0 then 1 else 0)"
proof (cases "a mod n + 1 = n")
  case True
  have "a + 1 = n * (a div n) + (a mod n + 1)" by simp
  also have "\<dots> = n * (a div n + 1) + 0" using True by (simp add: algebra_simps)
  finally have e: "a + 1 = n * (a div n + 1) + 0" .
  have "(a + 1) div n = a div n + 1"
    by (rule int_div_pos_eq [OF e]) (use assms in simp_all)
  moreover have "(a + 1) mod n = 0"
    by (rule int_mod_pos_eq [OF e]) (use assms in simp_all)
  ultimately show ?thesis by simp
next
  case False
  have "a mod n < n" "0 \<le> a mod n" using assms by simp_all
  then have lt: "a mod n + 1 < n" "0 \<le> a mod n + 1" using False by linarith+
  have e: "a + 1 = n * (a div n) + (a mod n + 1)" by simp
  have "(a + 1) div n = a div n"
    by (rule int_div_pos_eq [OF e]) (use lt in simp_all)
  moreover have "(a + 1) mod n = a mod n + 1"
    by (rule int_mod_pos_eq [OF e]) (use lt in simp_all)
  ultimately show ?thesis using \<open>0 \<le> a mod n\<close> by simp
qed

lemma mod_shift: "((y::int) - k * n) mod n = y mod n"
proof -
  have "(y - k * n) mod n = (y + (- k) * n) mod n" by simp
  also have "\<dots> = y mod n" by (rule mod_mult_self1)
  finally show ?thesis .
qed

lemma leap_div4: "((y::int) - 1968) div 4 = (y - 1969) div 4 + (if y mod 4 = 0 then 1 else 0)"
  using div_succ [of 4 "y - 1969"] mod_shift [of y 492 4] by simp

lemma leap_div100: "((y::int) - 1900) div 100 = (y - 1901) div 100 + (if y mod 100 = 0 then 1 else 0)"
  using div_succ [of 100 "y - 1901"] mod_shift [of y 19 100] by simp

lemma leap_div400: "((y::int) - 1600) div 400 = (y - 1601) div 400 + (if y mod 400 = 0 then 1 else 0)"
  using div_succ [of 400 "y - 1601"] mod_shift [of y 4 400] by simp

lemma mod100_mod4: "(y::int) mod 100 = 0 \<Longrightarrow> y mod 4 = 0"
  using mod_mod_cancel [of 4 100 y] by simp

lemma mod400_mod100: "(y::int) mod 400 = 0 \<Longrightarrow> y mod 100 = 0"
  using mod_mod_cancel [of 100 400 y] by simp

lemma DayFromYear_step: "DayFromYear (y + 1) = DayFromYear y + DaysInYear y"
proof -
  have e: "y + 1 - 1969 = y - 1968" "y + 1 - 1901 = y - 1900" "y + 1 - 1601 = y - 1600"
    by simp_all
  show ?thesis
    unfolding DayFromYear_def DaysInYear_def e leap_div4 leap_div100 leap_div400
    using mod100_mod4 [of y] mod400_mod100 [of y] by auto
qed

lemma DaysInYear_ge: "365 \<le> DaysInYear y"
  by (simp add: DaysInYear_def)

lemma DayFromYear_add: "DayFromYear y + 365 * int n \<le> DayFromYear (y + int n)"
proof (induction n)
  case 0
  show ?case by simp
next
  case (Suc n)
  have "y + int (Suc n) = y + int n + 1" by simp
  then have "DayFromYear (y + int (Suc n)) = DayFromYear (y + int n) + DaysInYear (y + int n)"
    using DayFromYear_step [of "y + int n"] by presburger
  then show ?case using Suc DaysInYear_ge [of "y + int n"] by simp
qed

lemma DayFromYear_mono: "y \<le> y' \<Longrightarrow> DayFromYear y \<le> DayFromYear y'"
  using DayFromYear_add [of y "nat (y' - y)"] by simp

lemma DayFromYear_strict: "y < y' \<Longrightarrow> DayFromYear y < DayFromYear y'"
  using DayFromYear_mono [of "y + 1" y'] DayFromYear_step [of y] DaysInYear_ge [of y] by simp

lemma div_bounds:
  fixes x n :: int
  assumes "0 < n"
  shows "n * (x div n) \<le> x" "x < n * (x div n) + n"
proof -
  have "x = n * (x div n) + x mod n" by simp
  moreover have "0 \<le> x mod n" "x mod n < n" using assms by simp_all
  ultimately show "n * (x div n) \<le> x" "x < n * (x div n) + n" by linarith+
qed

lemma DayFromYear_approx:
  "400 * DayFromYear y \<le> 146097 * (y - 1970) + 593"
  "146097 * (y - 1970) - 607 \<le> 400 * DayFromYear y"
proof -
  define a where "a = (y - 1969) div 4"
  define b where "b = (y - 1901) div 100"
  define c where "c = (y - 1601) div 400"
  have a: "4 * a \<le> y - 1969" "y - 1969 < 4 * a + 4"
    unfolding a_def using div_bounds [of 4 "y - 1969"] by simp_all
  have b: "100 * b \<le> y - 1901" "y - 1901 < 100 * b + 100"
    unfolding b_def using div_bounds [of 100 "y - 1901"] by simp_all
  have c: "400 * c \<le> y - 1601" "y - 1601 < 400 * c + 400"
    unfolding c_def using div_bounds [of 400 "y - 1601"] by simp_all
  have f: "DayFromYear y = 365 * (y - 1970) + a - b + c"
    by (simp add: DayFromYear_def a_def b_def c_def)
  show "400 * DayFromYear y \<le> 146097 * (y - 1970) + 593"
    unfolding f using a b c by (simp add: algebra_simps)
  show "146097 * (y - 1970) - 607 \<le> 400 * DayFromYear y"
    unfolding f using a b c by (simp add: algebra_simps)
qed

lemma YearFromDay_bounds:
  "DayFromYear (YearFromDay d) \<le> d \<and> d < DayFromYear (YearFromDay d + 1)"
proof -
  define e where "e = 1970 + (400 * d) div 146097"
  have q: "146097 * (e - 1970) \<le> 400 * d" "400 * d < 146097 * (e - 1970) + 146097"
    unfolding e_def using div_bounds [of 146097 "400 * d"] by simp_all
  have lo: "DayFromYear (e - 1) \<le> d"
    using DayFromYear_approx(1) [of "e - 1"] q by (simp add: algebra_simps)
  have hi: "d < DayFromYear (e + 1 + 1)"
    using DayFromYear_approx(2) [of "e + 1 + 1"] q by (simp add: algebra_simps)
  have y: "YearFromDay d =
      (if d < DayFromYear e then e - 1 else if DayFromYear (e + 1) \<le> d then e + 1 else e)"
    by (simp add: YearFromDay_def e_def Let_def)
  show ?thesis
    unfolding y using lo hi by auto
qed

lemma YearFromDay_unique:
  assumes "DayFromYear y \<le> d" "d < DayFromYear (y + 1)"
  shows "YearFromDay d = y"
proof (rule ccontr)
  assume n: "YearFromDay d \<noteq> y"
  let ?r = "YearFromDay d"
  have b: "DayFromYear ?r \<le> d" "d < DayFromYear (?r + 1)"
    using YearFromDay_bounds [of d] by simp_all
  show False
  proof (cases "?r < y")
    case True
    then have "DayFromYear (?r + 1) \<le> DayFromYear y" by (intro DayFromYear_mono) simp
    then show False using b assms by linarith
  next
    case False
    then have "y + 1 \<le> ?r" using n by simp
    then have "DayFromYear (y + 1) \<le> DayFromYear ?r" by (rule DayFromYear_mono)
    then show False using b assms by linarith
  qed
qed


lemma DaysInYear_leap: "DaysInYear y = 365 + InLeapYear y"
  by (simp add: InLeapYear_def DaysInYear_def)

lemma InLeapYear_cases: "InLeapYear y = 0 \<or> InLeapYear y = 1"
  by (simp add: InLeapYear_def)

lemma month_cases:
  "1 \<le> (m::int) \<Longrightarrow> m \<le> 12 \<Longrightarrow>
   m = 1 \<or> m = 2 \<or> m = 3 \<or> m = 4 \<or> m = 5 \<or> m = 6 \<or> m = 7 \<or> m = 8 \<or> m = 9 \<or>
   m = 10 \<or> m = 11 \<or> m = 12"
  by arith

lemma MakeDay_valid:
  assumes "1 \<le> m" "m \<le> 12"
  shows "MakeDay y (m - 1) d = DayFromYear y + (month_start (InLeapYear y) (m - 1) + d - 1)"
proof -
  have "(m - 1) div 12 = 0" "(m - 1) mod 12 = m - 1" using assms by simp_all
  then show ?thesis by (simp add: MakeDay_def Let_def)
qed

lemma day_within_year_range:
  assumes "calendar_valid y m d"
  shows "0 \<le> month_start (InLeapYear y) (m - 1) + d - 1"
    and "month_start (InLeapYear y) (m - 1) + d - 1 < DaysInYear y"
proof -
  have m: "1 \<le> m" "m \<le> 12" and d: "1 \<le> d" "d \<le> days_in_month y m"
    using assms by (simp_all add: calendar_valid_def)
  define l where "l = InLeapYear y"
  have l: "0 \<le> l" "l \<le> 1" using InLeapYear_cases [of y] by (auto simp: l_def)
  show "0 \<le> month_start (InLeapYear y) (m - 1) + d - 1"
    unfolding l_def [symmetric]
    using month_cases [OF m] d(1) l
    by (elim disjE) (simp_all add: month_start_def)
  show "month_start (InLeapYear y) (m - 1) + d - 1 < DaysInYear y"
    unfolding DaysInYear_leap using d(2) unfolding days_in_month_def l_def [symmetric]
    using month_cases [OF m] l
    by (elim disjE) (simp_all add: month_start_def)
qed


lemma YearFromDay_MakeDay:
  assumes "calendar_valid y m d"
  shows "YearFromDay (MakeDay y (m - 1) d) = y"
proof -
  have m: "1 \<le> m" "m \<le> 12" using assms by (simp_all add: calendar_valid_def)
  show ?thesis
    unfolding MakeDay_valid [OF m]
    using day_within_year_range [OF assms] DayFromYear_step [of y]
    by (intro YearFromDay_unique) simp_all
qed

lemma DayWithinYear_MakeDay:
  assumes "calendar_valid y m d"
  shows "DayWithinYear (MakeDay y (m - 1) d) = month_start (InLeapYear y) (m - 1) + d - 1"
proof -
  have m: "1 \<le> m" "m \<le> 12" using assms by (simp_all add: calendar_valid_def)
  show ?thesis
    unfolding DayWithinYear_def YearFromDay_MakeDay [OF assms]
    by (simp add: MakeDay_valid [OF m])
qed

lemma MonthFromDay_MakeDay:
  assumes "calendar_valid y m d"
  shows "MonthFromDay (MakeDay y (m - 1) d) = m - 1"
proof -
  have m: "1 \<le> m" "m \<le> 12" and d: "1 \<le> d" "d \<le> days_in_month y m"
    using assms by (simp_all add: calendar_valid_def)
  define l where "l = InLeapYear y"
  have l: "0 \<le> l" "l \<le> 1" using InLeapYear_cases [of y] by (auto simp: l_def)
  have "(let w = month_start l (m - 1) + d - 1
         in if w < 31 then 0 else if w < 59 + l then 1 else if w < 90 + l then 2
         else if w < 120 + l then 3 else if w < 151 + l then 4 else if w < 181 + l then 5
         else if w < 212 + l then 6 else if w < 243 + l then 7 else if w < 273 + l then 8
         else if w < 304 + l then 9 else if w < 334 + l then 10 else 11) = m - 1"
    using d(2) unfolding days_in_month_def l_def [symmetric]
    using month_cases [OF m] l d(1)
    by (elim disjE) (simp_all add: month_start_def Let_def)
  then show ?thesis
    unfolding MonthFromDay_def DayWithinYear_MakeDay [OF assms] YearFromDay_MakeDay [OF assms]
      l_def [symmetric] Let_def .
qed

lemma DateFromDay_MakeDay:
  assumes "calendar_valid y m d"
  shows "DateFromDay (MakeDay y (m - 1) d) = d"
  unfolding DateFromDay_def DayWithinYear_MakeDay [OF assms] YearFromDay_MakeDay [OF assms]
    MonthFromDay_MakeDay [OF assms]
  by simp

section \<open>Characters, numbers and strings\<close>

lemmas num_defs = num_add_def num_sub_def num_mul_def num_rem_def num_eq_def num_neq_def js_rem_def

lemmas checksum_eval = checksum_def parseInt_def is_space_def is_digit_def digit_val_def
  WEIGHTS_def num_defs Number_toString_def show_nat.simps digit_char_def upt_rec

lemma is_space_not_digit: "is_space c \<Longrightarrow> \<not> is_digit c"
  by (auto simp: is_space_def is_digit_def)

lemma parseInt_char: "parseInt [c] = (if is_digit c then Some (digit_val c) else None)"
proof (cases "is_space c")
  case True
  then show ?thesis using is_space_not_digit [OF True] by (simp add: parseInt_def)
next
  case False
  have "\<not> is_digit CHR ''-''" "\<not> is_digit CHR ''+''" by (simp_all add: is_digit_def)
  then show ?thesis using False by (auto simp: parseInt_def Let_def)
qed

lemma random_range:
  assumes "0 \<le> u" and "u < 1" and "a \<le> b"
  shows "\<exists>k. random u (Some a) (Some b) = Some k \<and> a \<le> k \<and> k \<le> b"
proof -
  define n where "n = b - a + 1"
  have n: "0 < n" using assms(3) by (simp add: n_def)
  have lo: "0 \<le> u * real_of_int n" using assms(1) n by simp
  have hi: "u * real_of_int n < real_of_int n" using assms(2) n by simp
  have "0 \<le> \<lfloor>u * real_of_int n\<rfloor>" using lo by simp
  moreover have "\<lfloor>u * real_of_int n\<rfloor> < n" using hi by (simp add: floor_less_iff)
  ultimately show ?thesis by (simp add: random_def n_def [symmetric]) (simp add: n_def)
qed

lemma digit_cases:
  "k < 10 \<Longrightarrow> k = 0 \<or> k = 1 \<or> k = 2 \<or> k = 3 \<or> k = 4 \<or> k = 5 \<or> k = 6 \<or> k = 7 \<or> k = 8 \<or> k = (9::nat)"
  by arith

lemma digit_char_digit: assumes "k < 10" shows "is_digit (digit_char k)"
  using digit_cases [OF assms] by (elim disjE) (simp_all add: digit_char_def is_digit_def)

lemma digit_val_digit_char: assumes "k < 10" shows "digit_val (digit_char k) = int k"
  using digit_cases [OF assms] by (elim disjE) (simp_all add: digit_char_def digit_val_def)

lemma digit_char_zero: assumes "k < 10" shows "(digit_char k = CHR ''0'') = (k = 0)"
  using digit_cases [OF assms] by (elim disjE) (simp_all add: digit_char_def)

lemma digit_val_range: "is_digit c \<Longrightarrow> 0 \<le> digit_val c \<and> digit_val c \<le> 9"
  by (auto simp: is_digit_def digit_val_def)

lemma digits_value_acc: "digits_value acc s = acc * 10 ^ length s + digits_value 0 s"
proof (induction s arbitrary: acc)
  case Nil
  show ?case by simp
next
  case (Cons c cs)
  show ?case
    using Cons.IH [of "acc * 10 + digit_val c"] Cons.IH [of "digit_val c"]
    by (simp add: algebra_simps)
qed

lemma digits_value_append:
  "digits_value acc (xs @ ys) = digits_value (digits_value acc xs) ys"
  by (induction xs arbitrary: acc) simp_all

lemma digits_value_range:
  "list_all is_digit s \<Longrightarrow> 0 \<le> digits_value 0 s \<and> digits_value 0 s < 10 ^ length s"
proof (induction s)
  case Nil
  show ?case by simp
next
  case (Cons c cs)
  have c: "0 \<le> digit_val c" "digit_val c \<le> 9" using Cons.prems digit_val_range [of c] by simp_all
  have ih: "0 \<le> digits_value 0 cs" "digits_value 0 cs < 10 ^ length cs"
    using Cons by simp_all
  define P where "P = (10::int) ^ length cs"
  have P: "0 < P" by (simp add: P_def)
  have e: "digits_value 0 (c # cs) = digit_val c * P + digits_value 0 cs"
    using digits_value_acc [of "digit_val c" cs] by (simp add: P_def)
  have u: "digit_val c * P \<le> 9 * P"
    using c(2) P by (intro mult_right_mono) simp_all
  have l: "0 \<le> digit_val c * P" using c(1) P by simp
  have "(10::int) ^ length (c # cs) = 10 * P" by (simp add: P_def)
  then show ?case unfolding e using u l ih unfolding P_def [symmetric] by linarith
qed

lemma show_nat_digits: "list_all is_digit (show_nat n)"
proof (induction n rule: show_nat.induct)
  case (1 n)
  show ?case
  proof (cases "n < 10")
    case True
    then show ?thesis by (simp add: show_nat.simps [of n] digit_char_digit)
  next
    case False
    then show ?thesis using "1" by (simp add: show_nat.simps [of n] digit_char_digit)
  qed
qed

lemma show_nat_value: "digits_value 0 (show_nat n) = int n"
proof (induction n rule: show_nat.induct)
  case (1 n)
  show ?case
  proof (cases "n < 10")
    case True
    then show ?thesis by (simp add: show_nat.simps [of n] digit_val_digit_char)
  next
    case False
    have "digits_value 0 (show_nat n) = int (n div 10) * 10 + int (n mod 10)"
      using False "1" by (simp add: show_nat.simps [of n] digits_value_append digit_val_digit_char)
    then show ?thesis by (simp add: zdiv_int zmod_int)
  qed
qed

lemma show_nat_length: "n < 10 ^ k \<Longrightarrow> 0 < k \<Longrightarrow> length (show_nat n) \<le> k"
proof (induction n arbitrary: k rule: show_nat.induct)
  case (1 n)
  show ?case
  proof (cases "n < 10")
    case True
    then show ?thesis using "1.prems" by (simp add: show_nat.simps [of n])
  next
    case False
    then have k: "1 < k" using "1.prems" by (cases "k = 1") simp_all
    then obtain j where j: "k = Suc j" "0 < j" by (cases k) simp_all
    have "n div 10 < 10 ^ j" using "1.prems"(1) j by (simp add: less_mult_imp_div_less mult.commute)
    then have "length (show_nat (n div 10)) \<le> j" using "1.IH" False j by simp
    then show ?thesis using False j by (simp add: show_nat.simps [of n])
  qed
qed

lemma show_nat_single: "n < 10 \<Longrightarrow> show_nat n = [digit_char n]"
  by (simp add: show_nat.simps [of n])

lemma Number_toString_nonneg: "0 \<le> k \<Longrightarrow> Number_toString (Some k) = show_nat (nat k)"
  by (simp add: Number_toString_def)

lemma padStart_length: "length s \<le> n \<Longrightarrow> length (padStart n c s) = n"
  by (simp add: padStart_def)

lemma padStart_digits: "list_all is_digit s \<Longrightarrow> list_all is_digit (padStart n CHR ''0'' s)"
proof -
  have "is_digit CHR ''0''" by (simp add: is_digit_def)
  then show "list_all is_digit s \<Longrightarrow> list_all is_digit (padStart n CHR ''0'' s)"
    by (auto simp: padStart_def list_all_iff)
qed

lemma digits_value_replicate_zero: "digits_value 0 (replicate k CHR ''0'') = 0"
  by (induction k) (simp_all add: digit_val_def)

lemma padStart_value: "digits_value 0 (padStart n CHR ''0'' s) = digits_value 0 s"
  by (simp add: padStart_def digits_value_append digits_value_replicate_zero)

lemma parseInt_digits:
  assumes "list_all is_digit s" and "s \<noteq> []"
  shows "parseInt s = Some (digits_value 0 s)"
proof -
  obtain c cs where s: "s = c # cs" using assms(2) by (cases s) simp_all
  have c: "is_digit c" using assms(1) s by simp
  have sp: "\<not> is_space c" using is_space_not_digit [of c] c by blast
  have sg: "c \<noteq> CHR ''-''" "c \<noteq> CHR ''+''" using c by (auto simp: is_digit_def)
  have tw: "takeWhile is_digit s = s" using assms(1) by (simp add: list_all_iff)
  show ?thesis
    using sp sg tw s by (simp add: parseInt_def Let_def)
qed

section \<open>The checksum as a weighted sum\<close>

lemma length_WEIGHTS: "length WEIGHTS = 9"
  by (simp add: WEIGHTS_def)

lemma checksum_take9: "checksum s = checksum (take 9 s)"
proof -
  let ?f = "\<lambda>ds i sum. num_add sum (num_mul (ds ! i) (Some (WEIGHTS ! i)))"
  let ?d = "map (\<lambda>d. parseInt [d]) s"
  let ?d9 = "map (\<lambda>d. parseInt [d]) (take 9 s)"
  let ?n = "min (length s) 9"
  have "fold (?f ?d9) [0..<?n] (Some 0) = fold (?f ?d) [0..<?n] (Some 0)"
    by (rule fold_cong) (simp_all add: take_map [symmetric])
  moreover have "min (length ?d9) (length WEIGHTS) = ?n" "min (length ?d) (length WEIGHTS) = ?n"
    by (simp_all add: length_WEIGHTS)
  ultimately show ?thesis
    unfolding checksum_def Let_def by simp
qed

lemma wsum_snoc:
  "length ds = length ws \<Longrightarrow> wsum (ds @ [d]) (ws @ [w]) = wsum ds ws + d * w"
  by (induction ds ws rule: list_induct2) auto

lemma wsum_take: "wsum ds (take (length ds) ws) = wsum ds ws"
  by (induction ds ws rule: wsum.induct) auto

lemma fold_weights:
  assumes "n \<le> length cs" and "n \<le> length ws" and "list_all is_digit (take n cs)"
  shows "fold (\<lambda>i sum. num_add sum (num_mul (map (\<lambda>d. parseInt [d]) cs ! i) (Some (ws ! i))))
           [0..<n] (Some a)
         = Some (a + wsum (map digit_val (take n cs)) (take n ws))"
proof -
  define F where
    "F = (\<lambda>i sum. num_add sum (num_mul (map (\<lambda>d. parseInt [d]) cs ! i) (Some (ws ! i))))"
  have "fold F [0..<n] (Some a) = Some (a + wsum (map digit_val (take n cs)) (take n ws))"
    using assms
  proof (induction n)
    case 0
    show ?case by simp
  next
    case (Suc n)
    have n: "n < length cs" "n < length ws" using Suc.prems by simp_all
    have dig: "is_digit (cs ! n)" "list_all is_digit (take n cs)"
      using Suc.prems(3) n by (simp_all add: take_Suc_conv_app_nth)
    have ih: "fold F [0..<n] (Some a) = Some (a + wsum (map digit_val (take n cs)) (take n ws))"
      using Suc.IH n dig by simp
    have w: "wsum (map digit_val (take (Suc n) cs)) (take (Suc n) ws)
          = wsum (map digit_val (take n cs)) (take n ws) + digit_val (cs ! n) * ws ! n"
      using n by (simp add: take_Suc_conv_app_nth wsum_snoc)
    have "fold F [0..<Suc n] (Some a) = F n (fold F [0..<n] (Some a))" by simp
    also have "\<dots> = F n (Some (a + wsum (map digit_val (take n cs)) (take n ws)))"
      by (simp only: ih)
    also have "\<dots> = Some (a + wsum (map digit_val (take n cs)) (take n ws)
                          + digit_val (cs ! n) * ws ! n)"
      using n dig(1) by (simp add: F_def parseInt_char num_add_def num_mul_def)
    finally show ?case by (simp add: w)
  qed
  then show ?thesis by (simp only: F_def)
qed

lemma js_rem_10_range: "- 10 < js_rem x 10 \<and> js_rem x 10 < 10"
proof -
  have "0 \<le> \<bar>x\<bar> mod 10" "\<bar>x\<bar> mod 10 < 10" by simp_all
  then show ?thesis
    by (cases "x < 0"; cases "x = 0") (simp_all add: js_rem_def)
qed

lemma checksum_digits:
  assumes "list_all is_digit (take 9 s)"
  shows "checksum s =
     Number_toString (Some (js_rem (js_rem (wsum (map digit_val (take 9 s)) WEIGHTS) 11) 10))"
proof -
  let ?n = "min (length s) 9"
  have t: "take ?n s = take 9 s" by (simp add: min_def)
  have d: "list_all is_digit (take ?n s)" using assms t by simp
  have f: "fold (\<lambda>i sum. num_add sum (num_mul (map (\<lambda>d. parseInt [d]) s ! i) (Some (WEIGHTS ! i))))
             [0..<?n] (Some 0)
           = Some (0 + wsum (map digit_val (take ?n s)) (take ?n WEIGHTS))"
    by (rule fold_weights) (simp_all add: length_WEIGHTS d)
  have "wsum (map digit_val (take ?n s)) (take ?n WEIGHTS)
        = wsum (map digit_val (take 9 s)) (take (length (map digit_val (take 9 s))) WEIGHTS)"
    by (simp add: t min.commute)
  also have "\<dots> = wsum (map digit_val (take 9 s)) WEIGHTS" by (rule wsum_take)
  finally have w: "wsum (map digit_val (take ?n s)) (take ?n WEIGHTS)
        = wsum (map digit_val (take 9 s)) WEIGHTS" .
  have r: "js_rem (js_rem (wsum (map digit_val (take 9 s)) WEIGHTS) 11) 10 \<noteq> 10"
    using js_rem_10_range [of "js_rem (wsum (map digit_val (take 9 s)) WEIGHTS) 11"] by simp
  show ?thesis
    unfolding checksum_def Let_def
    using r by (simp add: length_WEIGHTS f w num_rem_def num_eq_def)
qed

lemma checksum_first_nine: "take 9 s = take 9 t \<Longrightarrow> checksum s = checksum t"
  using checksum_take9 [of s] checksum_take9 [of t] by simp

lemma sum_list_wsum: "sum_list (map2 (\<lambda>w d. w * d) ws ds) = wsum ds ws"
  by (induction ds ws rule: wsum.induct) (simp_all add: mult.commute)

lemma js_rem_nonneg: "0 \<le> a \<Longrightarrow> 0 < b \<Longrightarrow> js_rem a b = a mod b"
  by (cases "a = 0") (simp_all add: js_rem_def)

lemma checksum_agrees_when_nonnegative:
  assumes "list_all is_digit (take 9 s)"
    and "0 \<le> wsum (map digit_val (take 9 s)) WEIGHTS"
  shows "checksum s = checksum_reference s"
proof -
  let ?w = "wsum (map digit_val (take 9 s)) WEIGHTS"
  have a: "js_rem ?w 11 = ?w mod 11" using assms(2) by (simp add: js_rem_nonneg)
  have b: "js_rem (?w mod 11) 10 = ?w mod 11 mod 10" by (simp add: js_rem_nonneg)
  have c: "0 \<le> ?w mod 11 mod 10" "?w mod 11 mod 10 \<noteq> 10"
    using pos_mod_bound [of 10 "?w mod 11"] by simp_all
  show ?thesis
    unfolding checksum_digits [OF assms(1)] a b checksum_reference_def Let_def sum_list_wsum
    using c by (simp add: Number_toString_def)
qed

lemma checksum_single_digit_when_nonnegative:
  assumes "list_all is_digit (take 9 s)"
    and "0 \<le> wsum (map digit_val (take 9 s)) WEIGHTS"
  shows "\<exists>k<10. checksum s = [digit_char k]"
proof -
  let ?w = "wsum (map digit_val (take 9 s)) WEIGHTS"
  let ?k = "?w mod 11 mod 10"
  have a: "js_rem ?w 11 = ?w mod 11" using assms(2) by (simp add: js_rem_nonneg)
  have b: "js_rem (?w mod 11) 10 = ?k" by (simp add: js_rem_nonneg)
  have c: "0 \<le> ?k" "?k < 10" by simp_all
  then have "nat ?k < 10" by simp
  moreover have "checksum s = [digit_char (nat ?k)]"
    unfolding checksum_digits [OF assms(1)] a b
    using c by (simp add: Number_toString_def show_nat_single)
  ultimately show ?thesis by blast
qed

lemma checksum_123456789: "checksum ''123456789'' = ''9''"
  by (simp add: checksum_eval)

lemma checksum_123456780: "checksum ''123456780'' = ''1''"
  by (simp add: checksum_eval)

section \<open>Checksum and validity\<close>

text \<open>
  C2: the checksum function against the reference definition with the mathematical
  modulus. On the nine digits \<open>900000000\<close> the weighted sum is \<open>-9\<close>; the remainder
  operator keeps the sign, so the function returns the two characters \<open>-9\<close>, where the
  reference gives \<open>2\<close>. Lemma \<open>checksum_agrees_when_nonnegative\<close> shows that the two
  agree whenever the weighted sum is not negative.
\<close>

theorem checksum_differs_from_reference:
  "checksum ''900000000'' = ''-9'' \<and> checksum_reference ''900000000'' = ''2''"
  by (simp add: checksum_eval checksum_reference_def)

text \<open>
  C3: the output of the checksum function as a single character from \<open>0\<close> to \<open>9\<close>.
  On the nine digits \<open>800000000\<close> the output is the two characters \<open>-8\<close>. The function is
  deterministic, and inputs that agree on their first nine characters give the same output
  (lemma \<open>checksum_first_nine\<close>).
\<close>

theorem checksum_output_not_a_digit:
  "checksum ''800000000'' = ''-8'' \<and> length (checksum ''800000000'') = 2"
  by (simp add: checksum_eval)

text \<open>
  What \<open>valid()\<close> computes on a ten-digit value: the digit at position 8 is not \<open>0\<close> and
  the digit at position 9 is the output of the program's checksum function on the first
  nine digits. With the reference checksum in its place the same holds whenever the
  weighted sum is not negative.
\<close>

lemma valid_by_program_checksum:
  assumes "matches_10_digits (value this)"
  shows "(valid this \<longleftrightarrow>
            (value this ! 8 \<noteq> CHR ''0'' \<and> [value this ! 9] = checksum (take 9 (value this)))) \<and>
         (value this ! 8 = CHR ''0'' \<longrightarrow> \<not> valid this)"
proof -
  have len: "length (value this) = 10" using assms by (simp add: matches_10_digits_def)
  have c: "char_at (value this) 8 = Some (value this ! 8)"
          "char_at (value this) 9 = Some (value this ! 9)"
    using len by (simp_all add: char_at_def)
  show ?thesis
    unfolding valid_def c using checksum_take9 [of "value this"] by simp
qed

lemma valid_by_program_checksum_examples:
  "valid \<lparr>value = ''1234567899'', ignoreInvalid = False\<rparr> \<and>
   [''1234567801'' ! 9] = checksum (take 9 ''1234567801'') \<and>
   \<not> valid \<lparr>value = ''1234567801'', ignoreInvalid = False\<rparr> \<and>
   \<not> valid \<lparr>value = ''1234567890'', ignoreInvalid = False\<rparr>"
proof -
  have m: "matches_10_digits (value \<lparr>value = ''1234567899'', ignoreInvalid = False\<rparr>)"
          "matches_10_digits (value \<lparr>value = ''1234567801'', ignoreInvalid = False\<rparr>)"
          "matches_10_digits (value \<lparr>value = ''1234567890'', ignoreInvalid = False\<rparr>)"
    by (simp_all add: matches_10_digits_def is_digit_def)
  show ?thesis
    using valid_by_program_checksum [OF m(1)]
      valid_by_program_checksum [OF m(2)]
      valid_by_program_checksum [OF m(3)]
    by (simp add: checksum_123456789 checksum_123456780)
qed

lemma valid_iff_reference_when_nonnegative:
  assumes "matches_10_digits (value this)"
    and "0 \<le> wsum (map digit_val (take 9 (value this))) WEIGHTS"
  shows "valid this \<longleftrightarrow>
           (value this ! 8 \<noteq> CHR ''0'' \<and>
            [value this ! 9] = checksum_reference (take 9 (value this)))"
proof -
  let ?s = "take 9 (value this)"
  have len: "length (value this) = 10" and dig: "list_all is_digit (value this)"
    using assms(1) by (simp_all add: matches_10_digits_def)
  have d9: "list_all is_digit (take 9 ?s)"
    using dig by (auto simp: list_all_iff dest: in_set_takeD)
  have w: "0 \<le> wsum (map digit_val (take 9 ?s)) WEIGHTS" using assms(2) by simp
  have e: "checksum ?s = checksum_reference ?s"
    using d9 w by (rule checksum_agrees_when_nonnegative)
  have c: "char_at (value this) 8 = Some (value this ! 8)"
          "char_at (value this) 9 = Some (value this ! 9)"
    using len by (simp_all add: char_at_def)
  show ?thesis
    unfolding valid_def c using checksum_take9 [of "value this"] e by simp
qed

text \<open>
  C4: for a ten-digit identifier, \<open>valid()\<close> holding exactly when the digit at position 8
  is not \<open>0\<close> and the digit at position 9 equals the checksum of the first nine digits.
  In \<open>9000000019\<close> the digit at position 8 is \<open>1\<close> and the digit at position 9 is \<open>9\<close>,
  the reference checksum of \<open>900000001\<close> (weighted sum \<open>-2\<close>); the program's checksum
  function returns the two characters \<open>-2\<close>, so \<open>valid()\<close> is false and construction
  throws. The rejection of a \<open>0\<close> at position 8 holds (lemma
  \<open>valid_by_program_checksum\<close>).
\<close>

theorem valid_rejects_reference_checksum:
  "matches_10_digits ''9000000019'' \<and>
   ''9000000019'' ! 8 = CHR ''1'' \<and>
   [''9000000019'' ! 9] = checksum_reference (take 9 ''9000000019'') \<and>
   checksum ''9000000019'' = ''-2'' \<and>
   valid \<lparr>value = ''9000000019'', ignoreInvalid = False\<rparr> = False \<and>
   new_Rntrc (Str ''9000000019'') None = Inl Invalid_RNTRC"
proof -
  have m: "matches_10_digits ''9000000019''"
    by (simp add: matches_10_digits_def is_digit_def)
  have r: "checksum_reference (take 9 ''9000000019'') = ''9''"
    by (simp add: checksum_reference_def WEIGHTS_def digit_val_def show_nat.simps digit_char_def)
  have c9: "checksum ''900000001'' = ''-2''" by (simp add: checksum_eval)
  have c: "checksum ''9000000019'' = ''-2''"
    using checksum_take9 [of "''9000000019''"] by (simp add: c9)
  have v: "valid \<lparr>value = ''9000000019'', ignoreInvalid = False\<rparr> = False"
    by (simp add: valid_def char_at_def c)
  have n: "new_Rntrc (Str ''9000000019'') None = Inl Invalid_RNTRC"
    by (simp add: new_Rntrc_def String_of_def v)
  show ?thesis using m r c v n by simp
qed

section \<open>Construction\<close>

text \<open>
  C5: whatever the skip-validation flag, construction fails with an error for every input,
  string or integer, whose string form is not exactly ten decimal digits. The instances
  below it include the nine-digit string \<open>123456789\<close> under both values of the flag.
\<close>

theorem construct_rejects_malformed:
  "\<not> matches_10_digits (String_of a) \<Longrightarrow> new_Rntrc a ig = Inl Invalid_RNTRC"
  by (simp add: new_Rntrc_def Let_def)

theorem construct_rejects_malformed_witness:
  "new_Rntrc (Str ''123456789'') (Some True) = Inl Invalid_RNTRC \<and>
   new_Rntrc (Str ''123456789'') (Some False) = Inl Invalid_RNTRC \<and>
   new_Rntrc (Str ''123456789'') None = Inl Invalid_RNTRC \<and>
   new_Rntrc (Num 123456789) (Some True) = Inl Invalid_RNTRC \<and>
   new_Rntrc (Str ''12345678a9'') (Some True) = Inl Invalid_RNTRC"
proof -
  have a: "\<not> matches_10_digits (String_of (Str ''123456789''))"
    by (simp add: matches_10_digits_def String_of_def)
  have b: "\<not> matches_10_digits (String_of (Num 123456789))"
    by (simp add: matches_10_digits_def String_of_def Number_toString_def show_nat.simps)
  have c: "\<not> matches_10_digits (String_of (Str ''12345678a9''))"
    by (simp add: matches_10_digits_def String_of_def is_digit_def)
  show ?thesis
    using construct_rejects_malformed [OF a] construct_rejects_malformed [OF b]
      construct_rejects_malformed [OF c]
    by simp
qed

section \<open>Accessors\<close>

text \<open>
  C10: for a ten-digit string whose digit at position 8 is \<open>0\<close>, constructed with
  validation skipped, construction succeeds, \<open>gender()\<close> is \<open>female\<close>, \<open>female()\<close> is
  true and \<open>male()\<close> is false, although \<open>valid()\<close> is false.
\<close>

theorem gender_of_zero_digit:
  assumes "matches_10_digits s" and "s ! 8 = CHR ''0''"
  shows "new_Rntrc (Str s) (Some True) = Inr \<lparr>value = s, ignoreInvalid = True\<rparr> \<and>
         gender \<lparr>value = s, ignoreInvalid = True\<rparr> = ''female'' \<and>
         female \<lparr>value = s, ignoreInvalid = True\<rparr> \<and>
         \<not> male \<lparr>value = s, ignoreInvalid = True\<rparr> \<and>
         \<not> valid \<lparr>value = s, ignoreInvalid = True\<rparr>"
proof -
  have len: "length s = 10" using assms(1) by (simp add: matches_10_digits_def)
  have c8: "char_at s 8 = Some CHR ''0''" using len assms(2) by (simp add: char_at_def)
  have n: "Number_of_char (Some CHR ''0'') = Some 0"
    by (simp add: Number_of_char_def is_digit_def digit_val_def)
  have g: "gender \<lparr>value = s, ignoreInvalid = True\<rparr> = ''female''"
    by (simp add: gender_def c8 n num_defs)
  show ?thesis
    using assms(1) len g c8
    by (simp add: new_Rntrc_def String_of_def female_def male_def valid_def)
qed

theorem gender_of_zero_digit_witness:
  "new_Rntrc (Str ''1234567800'') (Some True) = Inr \<lparr>value = ''1234567800'', ignoreInvalid = True\<rparr> \<and>
   gender \<lparr>value = ''1234567800'', ignoreInvalid = True\<rparr> = ''female'' \<and>
   female \<lparr>value = ''1234567800'', ignoreInvalid = True\<rparr> \<and>
   \<not> male \<lparr>value = ''1234567800'', ignoreInvalid = True\<rparr> \<and>
   \<not> valid \<lparr>value = ''1234567800'', ignoreInvalid = True\<rparr>"
proof -
  have a: "matches_10_digits ''1234567800''" by (simp add: matches_10_digits_def is_digit_def)
  have b: "''1234567800'' ! 8 = CHR ''0''" by simp
  show ?thesis using gender_of_zero_digit [OF a b] .
qed

lemmas date_eval = utc_ms_def full_year_def MakeDay_def DayFromYear_def InLeapYear_def
  DaysInYear_def month_start_def msPerDay_def

lemma BASE_DATE_MS_value: "BASE_DATE_MS = - 2209075200000"
  by (simp add: BASE_DATE_MS_def date_eval)

lemma MIN_DATE_value: "MIN_DATE = Some (- 2208988800000)"
  by (simp add: MIN_DATE_def Date_UTC_def TimeClip_def date_eval)

lemma MAX_DATE_value: "MAX_DATE = Some 6430838400000"
  by (simp add: MAX_DATE_def Date_UTC_def TimeClip_def date_eval)

lemma utc_fields_utc_ms:
  assumes "calendar_valid y m d" and "full_year y = y"
  shows "utc_fields (utc_ms y (m - 1) d) = (y, m - 1, d)"
  unfolding utc_fields_def utc_ms_def assms(2) Let_def
  by (simp add: msPerDay_def YearFromDay_MakeDay [OF assms(1)] MonthFromDay_MakeDay [OF assms(1)]
      DateFromDay_MakeDay [OF assms(1)])

lemma new_Rntrc_Inr:
  assumes "new_Rntrc a ig = Inr this"
  shows "matches_10_digits (value this)" and "value this = String_of a"
    and "ignoreInvalid this \<or> valid this"
  using assms by (auto simp: new_Rntrc_def Let_def split: if_splits)

lemma js_rem_2: "0 \<le> v \<Longrightarrow> (js_rem v 2 \<noteq> 0) = odd v"
  by (simp add: js_rem_nonneg odd_iff_mod_2_eq_one)

lemma new_Rntrc_1234567899:
  "new_Rntrc (Num 1234567899) None = Inr \<lparr>value = ''1234567899'', ignoreInvalid = False\<rparr>"
proof -
  have s: "String_of (Num 1234567899) = ''1234567899''"
    by (simp add: String_of_def Number_toString_def show_nat.simps digit_char_def)
  have c: "checksum ''1234567899'' = ''9''"
    using checksum_take9 [of "''1234567899''"] by (simp add: checksum_123456789)
  show ?thesis
    by (simp add: new_Rntrc_def s valid_def char_at_def c matches_10_digits_def is_digit_def)
qed

lemma birthdate_of_digits:
  assumes "matches_10_digits (value this)"
  shows "birthdate this =
           Some (BASE_DATE_MS + digits_value 0 (take 5 (value this)) * MILLIS_PER_DAY)"
    and "0 \<le> digits_value 0 (take 5 (value this))"
proof -
  have len: "length (value this) = 10" and dig: "list_all is_digit (value this)"
    using assms by (simp_all add: matches_10_digits_def)
  let ?d = "take 5 (value this)"
  have d5: "list_all is_digit ?d" "length ?d = 5" "?d \<noteq> []"
    using len dig by (auto simp: list_all_iff dest: in_set_takeD)
  have p: "parseInt (slice (value this) 0 5) = Some (digits_value 0 ?d)"
    using parseInt_digits [OF d5(1) d5(3)] by (simp add: slice_def)
  have r: "0 \<le> digits_value 0 ?d" "digits_value 0 ?d < 100000"
    using digits_value_range [OF d5(1)] d5(2) by simp_all
  show "birthdate this = Some (BASE_DATE_MS + digits_value 0 ?d * MILLIS_PER_DAY)"
    using r by (simp add: birthdate_def p num_add_def num_mul_def TimeClip_def
        BASE_DATE_MS_value MILLIS_PER_DAY_def)
  show "0 \<le> digits_value 0 ?d" by (rule r(1))
qed

lemma gender_of_digit:
  assumes "matches_10_digits (value this)"
  shows "gender this = (if odd (digit_val (value this ! 8)) then ''male'' else ''female'')"
proof -
  have len: "length (value this) = 10" and dig: "list_all is_digit (value this)"
    using assms by (simp_all add: matches_10_digits_def)
  have c8: "char_at (value this) 8 = Some (value this ! 8)" using len by (simp add: char_at_def)
  have d8: "is_digit (value this ! 8)" using dig len by (simp add: list_all_length)
  have v8: "0 \<le> digit_val (value this ! 8)" using digit_val_range [OF d8] by simp
  show ?thesis
    using d8 js_rem_2 [OF v8]
    by (simp add: gender_def c8 Number_of_char_def num_rem_def num_neq_def num_eq_def)
qed

text \<open>
  C8: for every constructed identifier, \<open>birthdate()\<close> is the epoch 1899-12-31 (UTC
  midnight) plus \<open>d\<close> days, \<open>d\<close> the unsigned decimal value of the digits at positions
  0 to 4, and \<open>gender()\<close> is \<open>male\<close> exactly when the digit at position 8 is odd. For
  \<open>1234567899\<close> that is 12345 days after the epoch, the date 1933-10-19 (month 9 counted
  from 0), and \<open>male\<close>.
\<close>

theorem birthdate_and_gender_of_constructed:
  assumes "new_Rntrc a ig = Inr this"
  shows "birthdate this =
           Some (BASE_DATE_MS + digits_value 0 (take 5 (value this)) * MILLIS_PER_DAY) \<and>
         0 \<le> digits_value 0 (take 5 (value this)) \<and>
         gender this = (if odd (digit_val (value this ! 8)) then ''male'' else ''female'')"
  using birthdate_of_digits [OF new_Rntrc_Inr(1) [OF assms]]
    gender_of_digit [OF new_Rntrc_Inr(1) [OF assms]]
  by simp

theorem birthdate_and_gender_of_constructed_witness:
  "new_Rntrc (Num 1234567899) None = Inr \<lparr>value = ''1234567899'', ignoreInvalid = False\<rparr> \<and>
   birthdate \<lparr>value = ''1234567899'', ignoreInvalid = False\<rparr>
     = Some (BASE_DATE_MS + 12345 * MILLIS_PER_DAY) \<and>
   BASE_DATE_MS + 12345 * MILLIS_PER_DAY = utc_ms 1933 9 19 \<and>
   utc_fields (utc_ms 1933 9 19) = (1933, 9, 19) \<and>
   gender \<lparr>value = ''1234567899'', ignoreInvalid = False\<rparr> = ''male''"
proof -
  have e: "BASE_DATE_MS + 12345 * MILLIS_PER_DAY = utc_ms 1933 9 19"
    by (simp add: BASE_DATE_MS_value MILLIS_PER_DAY_def date_eval)
  have cv: "calendar_valid 1933 10 19" by (simp add: calendar_valid_def days_in_month_def)
  have f: "utc_fields (utc_ms 1933 9 19) = (1933, 9, 19)"
    using utc_fields_utc_ms [OF cv] by (simp add: full_year_def)
  show ?thesis
    using birthdate_and_gender_of_constructed [OF new_Rntrc_1234567899] e f
    by (simp add: new_Rntrc_1234567899 digit_val_def)
qed

section \<open>The steps of generate\<close>

lemma div_mult_offset:
  fixes q r n :: int
  assumes "0 \<le> r" and "r < n"
  shows "(q * n + r) div n = q"
proof -
  have "q * n + r = n * q + r" by simp
  then show ?thesis by (rule int_div_pos_eq) (use assms in simp_all)
qed

lemma LocalDay_utc_ms:
  assumes "same_local_day e (utc_ms y m d)"
  shows "LocalDay e (utc_ms y m d) = MakeDay (full_year y) m d"
  using assms div_mult_offset [of "LocalTZA e (utc_ms y m d)" msPerDay "MakeDay (full_year y) m d"]
  by (simp add: LocalDay_def same_local_day_def utc_ms_def)

lemma Date_UTC_Some:
  "representable (utc_ms y m d) \<Longrightarrow> Date_UTC (Some y) (Some m) (Some d) = Some (utc_ms y m d)"
  by (simp add: Date_UTC_def TimeClip_def representable_def)

lemma Date_UTC_eq_Some:
  "Date_UTC (Some y) (Some m) (Some d) = Some t \<Longrightarrow> t = utc_ms y m d \<and> representable t"
  by (auto simp: Date_UTC_def TimeClip_def representable_def split: if_splits)

lemma local_fields:
  assumes "calendar_valid y m d" and "full_year y = y"
    and "same_local_day e (utc_ms y (m - 1) d)"
  shows "getDate e (Some (utc_ms y (m - 1) d)) = Some d"
    and "getMonth e (Some (utc_ms y (m - 1) d)) = Some (m - 1)"
    and "getFullYear e (Some (utc_ms y (m - 1) d)) = Some y"
  using LocalDay_utc_ms [OF assms(3)] assms(2)
  by (simp_all add: getDate_def getMonth_def getFullYear_def
      YearFromDay_MakeDay [OF assms(1)] MonthFromDay_MakeDay [OF assms(1)]
      DateFromDay_MakeDay [OF assms(1)])

lemma generate_checked:
  assumes "resolve_year e r p = Some y" and "resolve_month e r p = Some m"
    and "resolve_day e r p = Some d"
    and "calendar_valid y m d" and "full_year y = y"
    and "representable (utc_ms y (m - 1) d)"
    and "same_local_day e (utc_ms y (m - 1) d)"
  shows "generate e r p =
     (if num_lt (Some (utc_ms y (m - 1) d)) MIN_DATE \<or> num_lt MAX_DATE (Some (utc_ms y (m - 1) d))
      then Inl (Birthdate_out_of_range MIN_DATE MAX_DATE)
      else case genderNumeric r (param_gender p) of
             Inl err \<Rightarrow> Inl err
           | Inr gn \<Rightarrow>
               new_Rntrc (Str (rntrc9 (utc_ms y (m - 1) d) r gn @
                               checksum (rntrc9 (utc_ms y (m - 1) d) r gn))) None)"
proof -
  have t: "Date_UTC (Some y) (num_sub (Some m) (Some 1)) (Some d) = Some (utc_ms y (m - 1) d)"
    using Date_UTC_Some [OF assms(6)] by (simp add: num_sub_def)
  have chk: "\<not> num_neq (getDate e (Some (utc_ms y (m - 1) d))) (Some d)"
    "\<not> num_neq (getMonth e (Some (utc_ms y (m - 1) d))) (num_sub (Some m) (Some 1))"
    "\<not> num_neq (getFullYear e (Some (utc_ms y (m - 1) d))) (Some y)"
    using local_fields [OF assms(4,5,7)] by (simp_all add: num_neq_def num_eq_def num_sub_def)
  show ?thesis
    unfolding generate_def assms(1,2,3) Let_def t rntrc9_def
    using chk unfolding num_sub_def num_floor_div_def option.case by simp
qed

lemma generate_Inr:
  assumes "generate e r p = Inr this"
  shows "\<exists>t gn. Date_UTC (resolve_year e r p) (num_sub (resolve_month e r p) (Some 1))
                  (resolve_day e r p) = Some t \<and>
           \<not> num_lt (Some t) MIN_DATE \<and> \<not> num_lt MAX_DATE (Some t) \<and>
           genderNumeric r (param_gender p) = Inr gn \<and>
           new_Rntrc (Str (rntrc9 t r gn @ checksum (rntrc9 t r gn))) None = Inr this"
proof -
  define T where "T = Date_UTC (resolve_year e r p) (num_sub (resolve_month e r p) (Some 1))
                  (resolve_day e r p)"
  show ?thesis
  proof (cases T)
    case None
    have "generate e r p =
        Inl (Invalid_date (resolve_year e r p) (resolve_month e r p) (resolve_day e r p))"
      unfolding generate_def Let_def unfolding T_def [symmetric] None
      by (simp add: getDate_def num_neq_def num_eq_def)
    then show ?thesis using assms by simp
  next
    case (Some t)
    have d: "num_floor_div (num_sub (Some t) (Some BASE_DATE_MS)) MILLIS_PER_DAY
             = Some ((t - BASE_DATE_MS) div MILLIS_PER_DAY)"
      by (simp add: num_sub_def num_floor_div_def)
    have "\<not> num_lt (Some t) MIN_DATE \<and> \<not> num_lt MAX_DATE (Some t) \<and>
          (\<exists>gn. genderNumeric r (param_gender p) = Inr gn \<and>
             new_Rntrc (Str (rntrc9 t r gn @ checksum (rntrc9 t r gn))) None = Inr this)"
      using assms unfolding generate_def Let_def unfolding T_def [symmetric] Some
      unfolding d rntrc9_def
      by (auto split: if_splits sum.splits)
    then show ?thesis unfolding T_def [symmetric] Some by blast
  qed
qed

section \<open>The range of birthdates\<close>

lemma DayFromYear_values:
  "DayFromYear 1900 = - 25567" "DayFromYear 2173 = 74145" "DayFromYear 2174 = 74510"
  by (simp_all add: DayFromYear_def)

lemma MakeDay_in_year:
  assumes "calendar_valid y m d"
  shows "DayFromYear y \<le> MakeDay y (m - 1) d" and "MakeDay y (m - 1) d < DayFromYear (y + 1)"
proof -
  have m: "1 \<le> m" "m \<le> 12" using assms by (simp_all add: calendar_valid_def)
  show "DayFromYear y \<le> MakeDay y (m - 1) d"
    unfolding MakeDay_valid [OF m] using day_within_year_range(1) [OF assms] by simp
  show "MakeDay y (m - 1) d < DayFromYear (y + 1)"
    unfolding MakeDay_valid [OF m] DayFromYear_step
    using day_within_year_range(2) [OF assms] by simp
qed

lemma in_range_year:
  assumes "calendar_valid y m d"
  shows "in_range y m d =
     (1900 \<le> y \<and> (y < 2173 \<or> (y = 2173 \<and> (m < 10 \<or> (m = 10 \<and> d \<le> 14)))))"
  using assms by (auto simp: in_range_def date_less_def calendar_valid_def)

lemma MakeDay_2173:
  assumes "calendar_valid 2173 m d"
  shows "(MakeDay 2173 (m - 1) d \<le> 74431) = (m < 10 \<or> (m = 10 \<and> d \<le> 14))"
proof -
  have m: "1 \<le> m" "m \<le> 12" and d: "1 \<le> d" "d \<le> days_in_month 2173 m"
    using assms by (simp_all add: calendar_valid_def)
  have l: "InLeapYear 2173 = 0" by (simp add: InLeapYear_def DaysInYear_def)
  show ?thesis
    unfolding MakeDay_valid [OF m] DayFromYear_values l
    using d(2) unfolding days_in_month_def l
    using month_cases [OF m] d(1)
    by (elim disjE) (simp_all add: month_start_def)
qed

lemma in_range_MakeDay:
  assumes "calendar_valid y m d"
  shows "in_range y m d = (- 25567 \<le> MakeDay y (m - 1) d \<and> MakeDay y (m - 1) d \<le> 74431)"
proof -
  note b = MakeDay_in_year [OF assms]
  consider "y < 1900" | "1900 \<le> y" "y < 2173" | "y = 2173" | "2173 < y" by linarith
  then show ?thesis
  proof cases
    case 1
    then have "DayFromYear (y + 1) \<le> DayFromYear 1900" by (intro DayFromYear_mono) simp
    then show ?thesis using 1 b by (simp add: in_range_year [OF assms] DayFromYear_values)
  next
    case 2
    have "DayFromYear 1900 \<le> DayFromYear y" using 2 by (intro DayFromYear_mono) simp
    moreover have "DayFromYear (y + 1) \<le> DayFromYear 2173" using 2 by (intro DayFromYear_mono) simp
    ultimately show ?thesis using 2 b by (simp add: in_range_year [OF assms] DayFromYear_values)
  next
    case 3
    show ?thesis
      using assms b MakeDay_2173 [of m d] unfolding 3
      by (simp add: in_range_year DayFromYear_values)
  next
    case 4
    then have "DayFromYear 2174 \<le> DayFromYear y" by (intro DayFromYear_mono) simp
    then show ?thesis using 4 b by (simp add: in_range_year [OF assms] DayFromYear_values)
  qed
qed

lemma in_range_utc_ms:
  assumes "calendar_valid y m d" and "full_year y = y"
  shows "in_range y m d =
     (\<not> (num_lt (Some (utc_ms y (m - 1) d)) MIN_DATE \<or> num_lt MAX_DATE (Some (utc_ms y (m - 1) d))))"
proof -
  have "utc_ms y (m - 1) d = MakeDay y (m - 1) d * 86400000"
    by (simp add: utc_ms_def assms(2) msPerDay_def)
  then show ?thesis
    unfolding in_range_MakeDay [OF assms(1)]
    by (auto simp: MIN_DATE_value MAX_DATE_value num_lt_def)
qed

lemma in_range_full_year: "calendar_valid y m d \<Longrightarrow> in_range y m d \<Longrightarrow> full_year y = y"
  by (simp add: in_range_year full_year_def)

lemma in_range_representable:
  assumes "calendar_valid y m d" and "in_range y m d"
  shows "representable (utc_ms y (m - 1) d)"
proof -
  have "utc_ms y (m - 1) d = MakeDay y (m - 1) d * 86400000"
    by (simp add: utc_ms_def in_range_full_year [OF assms] msPerDay_def)
  then show ?thesis
    using assms(2) unfolding in_range_MakeDay [OF assms(1)] representable_def
    by linarith
qed

lemma days_of_utc_ms:
  assumes "full_year y = y"
  shows "(utc_ms y m d - BASE_DATE_MS) div MILLIS_PER_DAY = MakeDay y m d + 25568"
    and "utc_ms y m d = BASE_DATE_MS + (MakeDay y m d + 25568) * MILLIS_PER_DAY"
proof -
  have "utc_ms y m d - BASE_DATE_MS = (MakeDay y m d + 25568) * 86400000"
    by (simp add: utc_ms_def assms msPerDay_def BASE_DATE_MS_value)
  then show "(utc_ms y m d - BASE_DATE_MS) div MILLIS_PER_DAY = MakeDay y m d + 25568"
    by (simp add: MILLIS_PER_DAY_def)
  show "utc_ms y m d = BASE_DATE_MS + (MakeDay y m d + 25568) * MILLIS_PER_DAY"
    by (simp add: utc_ms_def assms msPerDay_def BASE_DATE_MS_value MILLIS_PER_DAY_def)
qed

lemma resolve_explicit:
  "resolve_year e r \<lparr>param_day = Some d, param_month = Some m, param_year = Some y, param_gender = g\<rparr> = Some y"
  "resolve_month e r \<lparr>param_day = Some d, param_month = Some m, param_year = Some y, param_gender = g\<rparr> = Some m"
  "resolve_day e r \<lparr>param_day = Some d, param_month = Some m, param_year = Some y, param_gender = g\<rparr> = Some d"
  by (simp_all add: resolve_year_def resolve_month_def resolve_day_def Let_def)

section \<open>Generation\<close>

lemma padded_number:
  assumes "0 \<le> n" and "n < 10 ^ k" and "0 < k"
  shows "length (padStart k CHR ''0'' (Number_toString (Some n))) = k"
    and "list_all is_digit (padStart k CHR ''0'' (Number_toString (Some n)))"
    and "digits_value 0 (padStart k CHR ''0'' (Number_toString (Some n))) = n"
proof -
  have s: "Number_toString (Some n) = show_nat (nat n)"
    using assms(1) by (rule Number_toString_nonneg)
  have "nat n < 10 ^ k" using assms(1,2) by (simp add: nat_less_iff)
  then have "length (show_nat (nat n)) \<le> k" using assms(3) by (rule show_nat_length)
  then show "length (padStart k CHR ''0'' (Number_toString (Some n))) = k"
    unfolding s by (rule padStart_length)
  show "list_all is_digit (padStart k CHR ''0'' (Number_toString (Some n)))"
    unfolding s by (rule padStart_digits) (rule show_nat_digits)
  show "digits_value 0 (padStart k CHR ''0'' (Number_toString (Some n))) = n"
    unfolding s using assms(1) by (simp add: padStart_value show_nat_value)
qed

lemma generate_in_range:
  assumes "resolve_year e r p = Some y" and "resolve_month e r p = Some m"
    and "resolve_day e r p = Some d"
    and "calendar_valid y m d" and "in_range y m d"
    and "same_local_day e (utc_ms y (m - 1) d)"
  shows "generate e r p =
     (case genderNumeric r (param_gender p) of
        Inl err \<Rightarrow> Inl err
      | Inr gn \<Rightarrow>
          new_Rntrc (Str (rntrc9 (utc_ms y (m - 1) d) r gn @
                          checksum (rntrc9 (utc_ms y (m - 1) d) r gn))) None)"
proof -
  have fy: "full_year y = y" using assms(4,5) by (rule in_range_full_year)
  have rp: "representable (utc_ms y (m - 1) d)" using assms(4,5) by (rule in_range_representable)
  have "\<not> (num_lt (Some (utc_ms y (m - 1) d)) MIN_DATE \<or> num_lt MAX_DATE (Some (utc_ms y (m - 1) d)))"
    using assms(5) unfolding in_range_utc_ms [OF assms(4) fy] .
  then show ?thesis
    unfolding generate_checked [OF assms(1,2,3,4) fy rp assms(6)] by simp
qed

lemma same_local_day_utc_env: "same_local_day utc_env t"
  by (simp add: same_local_day_def utc_env_def msPerDay_def)

lemma generate_invalid_date:
  assumes "num_neq (getDate e (Date_UTC (resolve_year e r p) (num_sub (resolve_month e r p) (Some 1))
              (resolve_day e r p))) (resolve_day e r p) \<or>
           num_neq (getMonth e (Date_UTC (resolve_year e r p) (num_sub (resolve_month e r p) (Some 1))
              (resolve_day e r p))) (num_sub (resolve_month e r p) (Some 1)) \<or>
           num_neq (getFullYear e (Date_UTC (resolve_year e r p) (num_sub (resolve_month e r p) (Some 1))
              (resolve_day e r p))) (resolve_year e r p)"
  shows "generate e r p =
     Inl (Invalid_date (resolve_year e r p) (resolve_month e r p) (resolve_day e r p))"
  using assms by (simp add: generate_def Let_def)

lemmas string_eval = Number_toString_def padStart_def show_nat.simps digit_char_def

lemma zero_draws_values:
  "random (u_record zero_draws) (Some 0) (Some 999) = Some 0"
  "genderNumeric zero_draws None = Inr (Some 1)"
  "genderNumeric zero_draws (Some []) = Inr (Some 1)"
  "genderNumeric zero_draws (Some ''male'') = Inr (Some 1)"
  "genderNumeric zero_draws (Some ''female'') = Inr (Some 2)"
  by (simp_all add: genderNumeric_def zero_draws_def random_def num_add_def num_mul_def)

lemma record_and_gender_strings:
  "padStart 3 CHR ''0'' (Number_toString (Some 0)) = ''000''"
  "Number_toString (Some 1) = ''1''"
  "Number_toString (Some 2) = ''2''"
  by (simp_all add: string_eval eval_nat_numeral)

lemma rntrc9_zero_draws:
  "rntrc9 t zero_draws (Some 1) =
     padStart 5 CHR ''0'' (Number_toString (Some ((t - BASE_DATE_MS) div MILLIS_PER_DAY))) @ ''0001''"
  by (simp add: rntrc9_def zero_draws_values record_and_gender_strings)

text \<open>1 January 2000, day 36525.\<close>

lemma utc_ms_2000_01_01: "utc_ms 2000 0 1 = 946684800000"
  by (simp add: date_eval)

lemma rntrc9_2000_01_01: "rntrc9 946684800000 zero_draws (Some 1) = ''365250001''"
  by (simp add: rntrc9_zero_draws BASE_DATE_MS_value MILLIS_PER_DAY_def string_eval)

lemma checksum_365250001: "checksum ''365250001'' = ''8''"
  by (simp add: checksum_eval)

lemma new_Rntrc_3652500018:
  "new_Rntrc (Str ''3652500018'') None = Inr \<lparr>value = ''3652500018'', ignoreInvalid = False\<rparr>"
proof -
  have c: "checksum ''3652500018'' = ''8''"
    using checksum_take9 [of "''3652500018''"] by (simp add: checksum_365250001)
  show ?thesis
    by (simp add: new_Rntrc_def String_of_def valid_def char_at_def c matches_10_digits_def
        is_digit_def)
qed

lemma generate_2000_01_01:
  assumes "g = None \<or> g = Some []"
  shows "generate utc_env zero_draws
     \<lparr>param_day = Some 1, param_month = Some 1, param_year = Some 2000, param_gender = g\<rparr>
   = Inr \<lparr>value = ''3652500018'', ignoreInvalid = False\<rparr>"
proof -
  have cv: "calendar_valid 2000 1 1" by (simp add: calendar_valid_def days_in_month_def)
  have ir: "in_range 2000 1 1" by (simp add: in_range_def date_less_def)
  have gn: "genderNumeric zero_draws g = Inr (Some 1)"
    using assms zero_draws_values by auto
  show ?thesis
    unfolding generate_in_range [OF resolve_explicit cv ir same_local_day_utc_env]
    by (simp add: gn utc_ms_2000_01_01 rntrc9_2000_01_01 checksum_365250001
        new_Rntrc_3652500018)
qed

text \<open>30 May 2146, day 90000.\<close>

lemma utc_ms_2146_05_30: "utc_ms 2146 4 30 = 5566924800000"
  by (simp add: date_eval)

lemma rntrc9_2146_05_30: "rntrc9 5566924800000 zero_draws (Some 1) = ''900000001''"
  by (simp add: rntrc9_zero_draws BASE_DATE_MS_value MILLIS_PER_DAY_def string_eval)

lemma checksum_900000001: "checksum ''900000001'' = ''-2''"
  by (simp add: checksum_eval)

lemma new_Rntrc_900000001: "new_Rntrc (Str ''900000001-2'') None = Inl Invalid_RNTRC"
proof -
  have c: "checksum ''900000001-2'' = ''-2''"
    using checksum_take9 [of "''900000001-2''"] by (simp add: checksum_900000001)
  show ?thesis
    by (simp add: new_Rntrc_def String_of_def valid_def char_at_def c)
qed

lemma genderNumeric_digit:
  assumes "0 \<le> u_gender r" and "u_gender r < 1"
    and "g = None \<or> g = Some [] \<or> g = Some ''male'' \<or> g = Some ''female''"
  shows "\<exists>k. genderNumeric r g = Inr (Some k) \<and> 1 \<le> k \<and> k \<le> 9"
proof -
  obtain a where a: "random (u_gender r) (Some 1) (Some 8) = Some a" "1 \<le> a" "a \<le> 8"
    using random_range [OF assms(1,2), of 1 8] by auto
  obtain b where b: "random (u_gender r) (Some 0) (Some 3) = Some b" "0 \<le> b" "b \<le> 3"
    using random_range [OF assms(1,2), of 0 3] by auto
  obtain c where c: "random (u_gender r) (Some 0) (Some 4) = Some c" "0 \<le> c" "c \<le> 4"
    using random_range [OF assms(1,2), of 0 4] by auto
  show ?thesis
    using assms(3) a b c
    by (elim disjE) (simp_all add: genderNumeric_def num_add_def num_mul_def)
qed

lemma new_Rntrc_nine_digits:
  assumes "length s = 9" and "list_all is_digit s" and "s ! 8 \<noteq> CHR ''0''"
    and "0 \<le> wsum (map digit_val s) WEIGHTS"
  shows "\<exists>this. new_Rntrc (Str (s @ checksum s)) None = Inr this \<and> valid this \<and>
           value this = s @ checksum s"
proof -
  have t9: "take 9 s = s" using assms(1) by simp
  obtain k where k: "k < 10" "checksum s = [digit_char k]"
    using checksum_single_digit_when_nonnegative [of s] assms(2,4) t9 by auto
  let ?v = "s @ [digit_char k]"
  let ?obj = "\<lparr>value = ?v, ignoreInvalid = False\<rparr>"
  have c: "checksum ?v = [digit_char k]"
    using checksum_take9 [of ?v] assms(1) k(2) by simp
  have c8: "char_at ?v 8 = Some (s ! 8)" "char_at ?v 9 = Some (digit_char k)"
    using assms(1) by (simp_all add: char_at_def nth_append)
  have v: "valid ?obj" using assms(3) by (simp add: valid_def c8 c)
  have m: "matches_10_digits ?v"
    using assms(1,2) digit_char_digit [OF k(1)] by (simp add: matches_10_digits_def)
  have "new_Rntrc (Str ?v) None = Inr ?obj"
    using v m assms(1) by (simp add: new_Rntrc_def String_of_def)
  then show ?thesis using v k(2) by simp
qed

lemma rntrc9_digits:
  assumes "0 \<le> n" and "n < 100000" and "(t - BASE_DATE_MS) div MILLIS_PER_DAY = n"
    and "0 \<le> u_record r" and "u_record r < 1" and "1 \<le> k" and "k \<le> 9"
  shows "length (rntrc9 t r (Some k)) = 9" and "list_all is_digit (rntrc9 t r (Some k))"
    and "rntrc9 t r (Some k) ! 8 \<noteq> CHR ''0''"
proof -
  obtain j where j: "random (u_record r) (Some 0) (Some 999) = Some j" "0 \<le> j" "j \<le> 999"
    using random_range [OF assms(4,5), of 0 999] by auto
  let ?days = "padStart 5 CHR ''0'' (Number_toString (Some n))"
  let ?rec = "padStart 3 CHR ''0'' (Number_toString (Some j))"
  have d: "length ?days = 5" "list_all is_digit ?days"
    using padded_number(1,2) [of n 5] assms(1,2) by simp_all
  have r: "length ?rec = 3" "list_all is_digit ?rec"
    using padded_number(1,2) [of j 3] j(2,3) by simp_all
  have kn: "nat k < 10" "nat k \<noteq> 0" using assms(6,7) by simp_all
  have g: "Number_toString (Some k) = [digit_char (nat k)]"
    using assms(6) kn(1) by (simp add: Number_toString_def show_nat_single)
  have e: "rntrc9 t r (Some k) = ?days @ ?rec @ [digit_char (nat k)]"
    by (simp add: rntrc9_def assms(3) j(1) g)
  show "length (rntrc9 t r (Some k)) = 9" unfolding e using d(1) r(1) by simp
  show "list_all is_digit (rntrc9 t r (Some k))"
    unfolding e using d(2) r(2) digit_char_digit [OF kn(1)] by simp
  have "(?days @ ?rec @ [digit_char (nat k)]) ! 8 = digit_char (nat k)"
    using d(1) r(1) by (simp add: nth_append)
  then show "rntrc9 t r (Some k) ! 8 \<noteq> CHR ''0''"
    unfolding e using digit_char_zero [OF kn(1)] kn(2) by simp
qed

lemma generate_returns_valid_when_sum_nonnegative:
  assumes "resolve_year e r p = Some y" and "resolve_month e r p = Some m"
    and "resolve_day e r p = Some d"
    and "calendar_valid y m d" and "in_range y m d"
    and "same_local_day e (utc_ms y (m - 1) d)"
    and "draws_ok r"
    and "param_gender p = None \<or> param_gender p = Some [] \<or>
         param_gender p = Some ''male'' \<or> param_gender p = Some ''female''"
    and "\<And>gn. genderNumeric r (param_gender p) = Inr gn \<Longrightarrow>
           0 \<le> wsum (map digit_val (rntrc9 (utc_ms y (m - 1) d) r gn)) WEIGHTS"
  shows "\<exists>this. generate e r p = Inr this \<and> valid this \<and>
           new_Rntrc (Str (toString this)) None = Inr this"
proof -
  let ?t = "utc_ms y (m - 1) d"
  have u: "0 \<le> u_gender r" "u_gender r < 1" "0 \<le> u_record r" "u_record r < 1"
    using assms(7) by (simp_all add: draws_ok_def)
  obtain k where k: "genderNumeric r (param_gender p) = Inr (Some k)" "1 \<le> k" "k \<le> 9"
    using genderNumeric_digit [OF u(1,2) assms(8)] by auto
  have fy: "full_year y = y" using assms(4,5) by (rule in_range_full_year)
  have n: "(?t - BASE_DATE_MS) div MILLIS_PER_DAY = MakeDay y (m - 1) d + 25568"
    using days_of_utc_ms(1) [OF fy] .
  have rng: "0 \<le> MakeDay y (m - 1) d + 25568" "MakeDay y (m - 1) d + 25568 < 100000"
    using assms(5) unfolding in_range_MakeDay [OF assms(4)] by simp_all
  note s9 = rntrc9_digits [OF rng n u(3,4) k(2,3)]
  have w: "0 \<le> wsum (map digit_val (rntrc9 ?t r (Some k))) WEIGHTS"
    using assms(9) [OF k(1)] .
  obtain this where ob:
    "new_Rntrc (Str (rntrc9 ?t r (Some k) @ checksum (rntrc9 ?t r (Some k)))) None = Inr this"
    "valid this" "value this = rntrc9 ?t r (Some k) @ checksum (rntrc9 ?t r (Some k))"
    using new_Rntrc_nine_digits [OF s9 w] by auto
  have g: "generate e r p = Inr this"
    unfolding generate_in_range [OF assms(1,2,3,4,5,6)] k(1) using ob(1) by simp
  have "new_Rntrc (Str (toString this)) None = Inr this"
    using ob(1,3) by (simp add: toString_def)
  then show ?thesis using g ob(2) by blast
qed

text \<open>
  C1: \<open>generate\<close> returning a valid identifier for every calendar-valid date in the
  range, every admissible gender option and every outcome of the draws. For 2146-05-30 (day
  90000 after the epoch), no gender option, and draws that give the record number 000 and
  the gender digit 1, the nine characters are \<open>900000001\<close>, their weighted sum is
  \<open>-2\<close>, the checksum comes out as the two characters \<open>-2\<close>, and the constructor
  rejects the eleven-character result: \<open>generate\<close> throws \<open>Invalid RNTRC\<close>. Lemma
  \<open>generate_returns_valid_when_sum_nonnegative\<close> shows that \<open>generate\<close> does return
  an identifier that is valid and passes construction whenever the weighted sum of the
  nine characters is not negative and the date is read on the same local day.
\<close>

theorem generate_fails_on_negative_weighted_sum:
  "calendar_valid 2146 5 30 \<and> in_range 2146 5 30 \<and> draws_ok zero_draws \<and>
   generate utc_env zero_draws
     \<lparr>param_day = Some 30, param_month = Some 5, param_year = Some 2146, param_gender = None\<rparr>
   = Inl Invalid_RNTRC"
proof -
  have cv: "calendar_valid 2146 5 30" by (simp add: calendar_valid_def days_in_month_def)
  have ir: "in_range 2146 5 30" by (simp add: in_range_def date_less_def)
  have dr: "draws_ok zero_draws" by (simp add: draws_ok_def zero_draws_def)
  have "generate utc_env zero_draws
     \<lparr>param_day = Some 30, param_month = Some 5, param_year = Some 2146, param_gender = None\<rparr>
   = Inl Invalid_RNTRC"
    unfolding generate_in_range [OF resolve_explicit cv ir same_local_day_utc_env]
    by (simp add: zero_draws_values utc_ms_2146_05_30 rntrc9_2146_05_30 checksum_900000001
        new_Rntrc_900000001)
  then show ?thesis using cv ir dr by simp
qed

text \<open>
  C7: when \<open>generate\<close> is given a year, a month and a day that form a calendar-valid date
  in the range and returns an identifier, \<open>birthdate()\<close> of that identifier is midnight
  UTC of exactly that date: its UTC calendar fields are the year, the month and the day
  asked for; the digits at positions 0 to 4 are the whole number of days from the epoch
  1899-12-31 to that date, padded with zeros to five characters; and parsing them gives
  that number back.
\<close>

theorem generated_birthdate_is_requested_date:
  assumes "calendar_valid y m d" and "in_range y m d"
    and "generate e r \<lparr>param_day = Some d, param_month = Some m, param_year = Some y,
                       param_gender = g\<rparr> = Inr this"
  shows "birthdate this = Some (utc_ms y (m - 1) d) \<and>
         utc_fields (utc_ms y (m - 1) d) = (y, m - 1, d) \<and>
         utc_ms y (m - 1) d mod msPerDay = 0 \<and>
         utc_ms y (m - 1) d
           = BASE_DATE_MS + ((utc_ms y (m - 1) d - BASE_DATE_MS) div MILLIS_PER_DAY) * MILLIS_PER_DAY \<and>
         slice (value this) 0 5
           = padStart 5 CHR ''0''
               (Number_toString (Some ((utc_ms y (m - 1) d - BASE_DATE_MS) div MILLIS_PER_DAY))) \<and>
         parseInt (slice (value this) 0 5)
           = Some ((utc_ms y (m - 1) d - BASE_DATE_MS) div MILLIS_PER_DAY)"
proof -
  let ?p = "\<lparr>param_day = Some d, param_month = Some m, param_year = Some y, param_gender = g\<rparr>"
  let ?t = "utc_ms y (m - 1) d"
  let ?n = "MakeDay y (m - 1) d + 25568"
  have fy: "full_year y = y" using assms(1,2) by (rule in_range_full_year)
  obtain t gn where
    t: "Date_UTC (resolve_year e r ?p) (num_sub (resolve_month e r ?p) (Some 1))
          (resolve_day e r ?p) = Some t"
    and c: "new_Rntrc (Str (rntrc9 t r gn @ checksum (rntrc9 t r gn))) None = Inr this"
    using generate_Inr [OF assms(3)] by blast
  have "Date_UTC (Some y) (Some (m - 1)) (Some d) = Some t"
    using t by (simp add: resolve_explicit num_sub_def)
  then have te: "t = ?t" using Date_UTC_eq_Some by blast
  have n: "(?t - BASE_DATE_MS) div MILLIS_PER_DAY = ?n"
    and tn: "?t = BASE_DATE_MS + ?n * MILLIS_PER_DAY"
    using days_of_utc_ms [OF fy] by simp_all
  have rng: "0 \<le> ?n" "?n < 10 ^ 5"
    using assms(2) unfolding in_range_MakeDay [OF assms(1)] by simp_all
  let ?days = "padStart 5 CHR ''0'' (Number_toString (Some ?n))"
  note pd = padded_number [OF rng, simplified]
  have v: "value this = rntrc9 ?t r gn @ checksum (rntrc9 ?t r gn)"
    using new_Rntrc_Inr(2) [OF c] by (simp add: String_of_def te)
  have tk: "take 5 (value this) = ?days"
    unfolding v rntrc9_def n using pd(1) by simp
  have m10: "matches_10_digits (value this)" using c by (rule new_Rntrc_Inr(1))
  have b: "birthdate this = Some ?t"
    using birthdate_of_digits(1) [OF m10] unfolding tk pd(3) using tn by simp
  have f: "utc_fields ?t = (y, m - 1, d)" using assms(1) fy by (rule utc_fields_utc_ms)
  have md: "?t mod msPerDay = 0" by (simp add: utc_ms_def)
  have sl: "slice (value this) 0 5 = ?days" using tk by (simp add: slice_def)
  have "?days \<noteq> []" using pd(1) by auto
  then have pi: "parseInt ?days = Some ?n" using parseInt_digits [OF pd(2)] pd(3) by simp
  show ?thesis
    unfolding n sl pi using b f md tn by simp
qed

theorem generated_birthdate_is_requested_date_witness:
  "generate utc_env zero_draws
     \<lparr>param_day = Some 1, param_month = Some 1, param_year = Some 2000, param_gender = None\<rparr>
     = Inr \<lparr>value = ''3652500018'', ignoreInvalid = False\<rparr> \<and>
   birthdate \<lparr>value = ''3652500018'', ignoreInvalid = False\<rparr> = Some (utc_ms 2000 0 1) \<and>
   utc_fields (utc_ms 2000 0 1) = (2000, 0, 1) \<and>
   slice ''3652500018'' 0 5 = ''36525'' \<and>
   parseInt ''36525'' = Some 36525 \<and>
   utc_ms 2000 0 1 = BASE_DATE_MS + 36525 * MILLIS_PER_DAY"
proof -
  have cv: "calendar_valid 2000 1 1" by (simp add: calendar_valid_def days_in_month_def)
  have ir: "in_range 2000 1 1" by (simp add: in_range_def date_less_def)
  have g: "generate utc_env zero_draws
     \<lparr>param_day = Some 1, param_month = Some 1, param_year = Some 2000, param_gender = None\<rparr>
     = Inr \<lparr>value = ''3652500018'', ignoreInvalid = False\<rparr>"
    by (rule generate_2000_01_01) simp
  have n: "(946684800000 - BASE_DATE_MS) div MILLIS_PER_DAY = 36525"
    by (simp add: BASE_DATE_MS_value MILLIS_PER_DAY_def)
  have s: "slice ''3652500018'' 0 5 = ''36525''" by (simp add: slice_def)
  have q: "padStart 5 CHR ''0'' (Number_toString (Some 36525)) = ''36525''"
    by (simp add: string_eval)
  show ?thesis
    using generated_birthdate_is_requested_date [OF cv ir g] g
    by (simp add: utc_ms_2000_01_01 n s q)
qed


lemma genderNumeric_error:
  "genderNumeric r g = Inl err \<Longrightarrow> err = Gender_must_be_male_or_female"
  by (auto simp: genderNumeric_def split: if_splits)

lemma new_Rntrc_error: "new_Rntrc a ig = Inl err \<Longrightarrow> err = Invalid_RNTRC"
  by (auto simp: new_Rntrc_def Let_def split: if_splits)


text \<open>1 January 1800, before the range.\<close>

lemma utc_ms_1800_01_01: "utc_ms 1800 0 1 = - 5364662400000"
  by (simp add: date_eval)








lemma generate_out_of_range:
  assumes "resolve_year e r p = Some y" and "resolve_month e r p = Some m"
    and "resolve_day e r p = Some d"
    and "calendar_valid y m d" and "\<not> in_range y m d" and "full_year y = y"
  shows "generate e r p = Inl (Birthdate_out_of_range MIN_DATE MAX_DATE) \<or>
         generate e r p = Inl (Invalid_date (Some y) (Some m) (Some d))"
proof (cases "Date_UTC (Some y) (num_sub (Some m) (Some 1)) (Some d)")
  case None
  have "generate e r p = Inl (Invalid_date (Some y) (Some m) (Some d))"
    using generate_invalid_date [of e r p] unfolding assms(1,2,3) None
    by (simp add: getDate_def num_neq_def num_eq_def)
  then show ?thesis by simp
next
  case (Some t)
  then have te: "t = utc_ms y (m - 1) d"
    using Date_UTC_eq_Some [of y "m - 1" d t] by (simp add: num_sub_def)
  have out: "num_lt (Some t) MIN_DATE \<or> num_lt MAX_DATE (Some t)"
    using assms(5) in_range_utc_ms [OF assms(4,6)] te by simp
  show ?thesis
    unfolding generate_def Let_def assms(1,2,3) Some using out by simp
qed

lemma generate_in_range_errors:
  assumes "resolve_year e r p = Some y" and "resolve_month e r p = Some m"
    and "resolve_day e r p = Some d"
    and "calendar_valid y m d" and "in_range y m d"
    and "same_local_day e (utc_ms y (m - 1) d)"
  shows "generate e r p \<noteq> Inl (Birthdate_out_of_range MIN_DATE MAX_DATE)"
    and "generate e r p \<noteq> Inl (Invalid_date a b c)"
proof -
  note g = generate_in_range [OF assms]
  show "generate e r p \<noteq> Inl (Birthdate_out_of_range MIN_DATE MAX_DATE)"
    unfolding g using genderNumeric_error new_Rntrc_error
    by (fastforce split: sum.splits)
  show "generate e r p \<noteq> Inl (Invalid_date a b c)"
    unfolding g using genderNumeric_error new_Rntrc_error
    by (fastforce split: sum.splits)
qed









lemma generate_west_1800:
  "generate west_env zero_draws
     \<lparr>param_day = Some 1, param_month = Some 1, param_year = Some 1800, param_gender = None\<rparr>
   = Inl (Invalid_date (Some 1800) (Some 1) (Some 1))"
proof -
  let ?p = "\<lparr>param_day = Some 1, param_month = Some 1, param_year = Some 1800, param_gender = None\<rparr>"
  have t: "Date_UTC (Some 1800) (num_sub (Some 1) (Some 1)) (Some 1) = Some (- 5364662400000)"
    by (simp add: num_sub_def Date_UTC_def TimeClip_def utc_ms_1800_01_01)
  have cv: "calendar_valid 1799 12 31" by (simp add: calendar_valid_def days_in_month_def)
  have "LocalDay west_env (- 5364662400000) = MakeDay 1799 (12 - 1) 31"
    by (simp add: LocalDay_def west_env_def date_eval)
  then have "getDate west_env (Some (- 5364662400000)) = Some 31"
    using DateFromDay_MakeDay [OF cv] by (simp add: getDate_def)
  then have "num_neq (getDate west_env (Some (- 5364662400000))) (Some 1)"
    by (simp add: num_neq_def num_eq_def)
  then show ?thesis
    using generate_invalid_date [of west_env zero_draws ?p]
    unfolding resolve_explicit t by simp
qed


















end
